theory Spec2Isabelle
  imports Main "HOL-Library.Word"
begin

unbundle bit_operations_syntax

section \<open>CloakBet: a shallow embedding of the contract\<close>

text \<open>
  The contract \<open>CloakBet\<close> (Solidity, over the FHEVM library) is embedded with every
  encrypted value replaced by its plaintext: an \<open>euint8\<close> is an \<open>8 word\<close>, an
  \<open>euint64\<close> a \<open>64 word\<close>, an \<open>ebool\<close> a \<open>bool\<close>. The operations of the FHE library
  are the corresponding operations on words. Access grants (\<open>FHE.allow\<close> and friends)
  and events change nothing that the contract reads back, and are left out.
\<close>

subsection \<open>Constants\<close>

type_synonym euint8 = "8 word"
type_synonym euint64 = "64 word"
type_synonym address = "160 word"
type_synonym uint256 = "256 word"

definition HAND_SIZE :: "8 word" where
  "HAND_SIZE = 6"

definition DECK_SIZE :: "8 word" where
  "DECK_SIZE = 52"

definition RANKS :: "8 word" where
  "RANKS = 13"

definition DUMMY_USED_MASK :: "64 word" where
  "DUMMY_USED_MASK = 0xFFF0000000000000"

subsection \<open>The operations of the FHE library, on plaintexts\<close>

text \<open>
  The library is an external dependency of the repository. Its operations are total on
  plaintexts: addition wraps at the width of the type, and a shift or a rotation of a
  64-bit value takes its amount modulo 64.
\<close>

definition FHE_add :: "euint8 \<Rightarrow> euint8 \<Rightarrow> euint8" where
  "FHE_add a b = a + b"

definition FHE_rem :: "euint8 \<Rightarrow> 8 word \<Rightarrow> euint8" where
  "FHE_rem a b = a mod b"

definition FHE_div :: "euint8 \<Rightarrow> 8 word \<Rightarrow> euint8" where
  "FHE_div a b = a div b"

definition FHE_gt :: "euint8 \<Rightarrow> euint8 \<Rightarrow> bool" where
  "FHE_gt a b = (b < a)"

definition FHE_eq :: "'a::len word \<Rightarrow> 'a word \<Rightarrow> bool" where
  "FHE_eq a b = (a = b)"

definition FHE_select :: "bool \<Rightarrow> 'a \<Rightarrow> 'a \<Rightarrow> 'a" where
  "FHE_select c a b = (if c then a else b)"

definition FHE_shr :: "euint64 \<Rightarrow> 8 word \<Rightarrow> euint64" where
  "FHE_shr a n = drop_bit (unat n mod 64) a"

definition FHE_shl :: "euint64 \<Rightarrow> euint8 \<Rightarrow> euint64" where
  "FHE_shl a n = push_bit (unat n mod 64) a"

definition FHE_rotr :: "euint64 \<Rightarrow> euint8 \<Rightarrow> euint64" where
  "FHE_rotr a n = word_rotr (unat n mod 64) a"

subsection \<open>The unique-draw engine\<close>

definition skipIfLowerFull :: "euint64 \<Rightarrow> euint8 \<Rightarrow> 8 word \<Rightarrow> 64 word \<Rightarrow> euint64 \<times> euint8" where
  "skipIfLowerFull m idx bits ones =
     (let onesEnc = ones;
          lower = m AND onesEnc;
          lowerFull = FHE_eq lower onesEnc;
          newMask = FHE_select lowerFull (FHE_shr m bits) m;
          newIdx = FHE_select lowerFull (FHE_add idx bits) idx
      in (newMask, newIdx))"

definition firstZeroBitIndex :: "euint64 \<Rightarrow> euint8" where
  "firstZeroBitIndex m0 =
     (let idx0 = (0 :: euint8);
          (m1, idx1) = skipIfLowerFull m0 idx0 32 0xFFFFFFFF;
          (m2, idx2) = skipIfLowerFull m1 idx1 16 0xFFFF;
          (m3, idx3) = skipIfLowerFull m2 idx2 8 0xFF;
          (m4, idx4) = skipIfLowerFull m3 idx3 4 0xF;
          (m5, idx5) = skipIfLowerFull m4 idx4 2 0x3;
          low1 = m5 AND 1;
          low1Full = FHE_eq low1 1
      in FHE_select low1Full (FHE_add idx5 1) idx5)"

text \<open>
  \<open>FHE.randEuint8(64)\<close> is the only source of randomness: the value it returns is the
  argument \<open>start\<close> here, and lies in \<open>0..63\<close>.
\<close>

definition drawUniqueCard :: "euint64 \<Rightarrow> euint8 \<Rightarrow> euint8 \<times> euint64" where
  "drawUniqueCard usedMask start =
     (let maskWithDummies = usedMask OR DUMMY_USED_MASK;
          rotated = FHE_rotr maskWithDummies start;
          pos = firstZeroBitIndex rotated;
          card64 = FHE_add pos start;
          card = card64 AND 63;
          bit1 = FHE_shl 1 card;
          newMask = usedMask OR bit1
      in (card, newMask))"

subsection \<open>Sessions and the contract's storage\<close>

text \<open>
  The struct \<open>Game\<close>. The two hands are the fixed arrays \<open>euint8[HAND_SIZE]\<close>, lists of
  length 6 here. The result \<open>p0Wins\<close> is an \<open>ebool\<close> handle: \<open>None\<close> is the handle that
  was never assigned, \<open>Some b\<close> the encryption of \<open>b\<close>.
\<close>

record game =
  player0 :: address
  player1 :: address
  started :: bool
  finished :: bool
  createdAt :: uint256
  usedMask :: euint64
  dealIndex :: "8 word"
  hand0 :: "euint8 list"
  hand1 :: "euint8 list"
  playedIndex0 :: "8 word"
  playedIndex1 :: "8 word"
  hasPlayed0 :: bool
  hasPlayed1 :: bool
  p0Wins :: "bool option"

text \<open>
  The storage of the contract. The values of \<open>_openIndexPlusOne\<close> and the length of
  \<open>_openGameIds\<close> are natural numbers: the array never holds more entries than games
  were created, so \<open>length + 1\<close> stays below \<open>2 ^ 256\<close>.
\<close>

record contract =
  nextGameId :: uint256
  games :: "uint256 \<Rightarrow> game"
  openGameIds :: "uint256 list"
  openIndexPlusOne :: "uint256 \<Rightarrow> nat"

datatype error =
    GameNotFound uint256
  | GameNotOpen uint256
  | GameFull uint256
  | GameNotReady uint256
  | GameAlreadyStarted uint256
  | GameAlreadyFinished uint256
  | HandsNotDealt uint256
  | HandsAlreadyDealt uint256
  | NotAPlayer uint256
  | AlreadyPlayed uint256
  | InvalidHandIndex "8 word"
  | Panic

definition empty_game :: game where
  "empty_game = \<lparr> player0 = 0, player1 = 0, started = False, finished = False,
     createdAt = 0, usedMask = 0, dealIndex = 0,
     hand0 = replicate 6 0, hand1 = replicate 6 0,
     playedIndex0 = 0, playedIndex1 = 0, hasPlayed0 = False, hasPlayed1 = False,
     p0Wins = None \<rparr>"

definition init_contract :: contract where
  "init_contract = \<lparr> nextGameId = 0, games = (\<lambda>_. empty_game),
     openGameIds = [], openIndexPlusOne = (\<lambda>_. 0) \<rparr>"

definition getGame :: "contract \<Rightarrow> uint256 \<Rightarrow> error + game" where
  "getGame s gameId =
     (let g = games s gameId
      in if player0 g = 0 then Inl (GameNotFound gameId) else Inr g)"

definition setGame :: "contract \<Rightarrow> uint256 \<Rightarrow> game \<Rightarrow> contract" where
  "setGame s gameId g = s\<lparr> games := (games s)(gameId := g) \<rparr>"

subsection \<open>The open-game index\<close>

definition pushOpen :: "contract \<Rightarrow> uint256 \<Rightarrow> contract" where
  "pushOpen s gameId =
     s\<lparr> openIndexPlusOne := (openIndexPlusOne s)(gameId := length (openGameIds s) + 1),
        openGameIds := openGameIds s @ [gameId] \<rparr>"

text \<open>
  \<open>_removeOpen\<close>. The subtraction \<open>length - 1\<close> is checked and the array accesses are
  bounds-checked: each is a panic of the source and a branch here.
\<close>

definition removeOpen :: "contract \<Rightarrow> uint256 \<Rightarrow> error + contract" where
  "removeOpen s gameId =
     (let idxPlusOne = openIndexPlusOne s gameId
      in if idxPlusOne = 0 then Inr s
         else
           let idx = idxPlusOne - 1;
               ids = openGameIds s
           in if length ids = 0 then Inl Panic
              else
                let lastIdx = length ids - 1
                in if idx \<noteq> lastIdx \<and> \<not> idx < length ids then Inl Panic
                   else
                     let s1 = (if idx \<noteq> lastIdx
                               then (let moved = ids ! lastIdx
                                     in s\<lparr> openGameIds := ids[idx := moved],
                                           openIndexPlusOne := (openIndexPlusOne s)(moved := idx + 1) \<rparr>)
                               else s)
                     in Inr (s1\<lparr> openGameIds := butlast (openGameIds s1),
                                  openIndexPlusOne := (openIndexPlusOne s1)(gameId := 0) \<rparr>))"

definition getOpenGameIds :: "contract \<Rightarrow> uint256 list" where
  "getOpenGameIds s = openGameIds s"

subsection \<open>The showdown\<close>

definition p0WinsOf :: "euint8 \<Rightarrow> euint8 \<Rightarrow> bool" where
  "p0WinsOf c0 c1 =
     (let r0 = FHE_rem c0 RANKS;
          r1 = FHE_rem c1 RANKS;
          s0 = FHE_div c0 RANKS;
          s1 = FHE_div c1 RANKS;
          rankGt = FHE_gt r0 r1;
          rankEq = FHE_eq r0 r1;
          suitGt = FHE_gt s0 s1
      in rankGt \<or> (rankEq \<and> suitGt))"

text \<open>
  \<open>_finishGame\<close>. Reading a fixed array of \<open>HAND_SIZE\<close> entries at an index that is not
  below \<open>HAND_SIZE\<close> is a panic of the source.
\<close>

definition finishGame :: "game \<Rightarrow> error + game" where
  "finishGame g =
     (if \<not> playedIndex0 g < HAND_SIZE \<or> \<not> playedIndex1 g < HAND_SIZE then Inl Panic
      else
        let c0 = hand0 g ! unat (playedIndex0 g);
            c1 = hand1 g ! unat (playedIndex1 g)
        in Inr (g\<lparr> p0Wins := Some (p0WinsOf c0 c1), finished := True \<rparr>))"

subsection \<open>The transitions\<close>

text \<open>
  Each transition takes the storage, the caller (\<open>msg.sender\<close>) and its arguments, and
  returns the error it reverts with or the new storage. \<open>nextGameId++\<close> is checked
  arithmetic: it panics at the largest \<open>uint256\<close>.
\<close>

definition createGame :: "contract \<Rightarrow> address \<Rightarrow> uint256 \<Rightarrow> error + (uint256 \<times> contract)" where
  "createGame s sender timestamp =
     (if nextGameId s = - 1 then Inl Panic
      else
        let gameId = nextGameId s;
            s1 = s\<lparr> nextGameId := nextGameId s + 1 \<rparr>;
            g = games s1 gameId;
            s2 = setGame s1 gameId (g\<lparr> player0 := sender, createdAt := timestamp \<rparr>)
        in Inr (gameId, pushOpen s2 gameId))"

definition joinGame :: "contract \<Rightarrow> address \<Rightarrow> uint256 \<Rightarrow> error + contract" where
  "joinGame s sender gameId =
     (case getGame s gameId of
        Inl e \<Rightarrow> Inl e
      | Inr g \<Rightarrow>
          if started g then Inl (GameAlreadyStarted gameId)
          else if player1 g \<noteq> 0 then Inl (GameFull gameId)
          else if player0 g = 0 then Inl (GameNotFound gameId)
          else if player0 g = sender then Inl (GameNotOpen gameId)
          else removeOpen (setGame s gameId (g\<lparr> player1 := sender \<rparr>)) gameId)"

definition startGame :: "contract \<Rightarrow> address \<Rightarrow> uint256 \<Rightarrow> error + contract" where
  "startGame s sender gameId =
     (case getGame s gameId of
        Inl e \<Rightarrow> Inl e
      | Inr g \<Rightarrow>
          if started g then Inl (GameAlreadyStarted gameId)
          else if player0 g = 0 \<or> player1 g = 0 then Inl (GameNotReady gameId)
          else if sender \<noteq> player0 g \<and> sender \<noteq> player1 g then Inl (NotAPlayer gameId)
          else Inr (setGame s gameId (g\<lparr> started := True, dealIndex := 0, usedMask := 0 \<rparr>)))"

text \<open>
  \<open>dealRound\<close>; \<open>rand0\<close> and \<open>rand1\<close> are the values of the two calls of
  \<open>FHE.randEuint8(64)\<close>, in the order of the calls.
\<close>

definition dealRound :: "contract \<Rightarrow> address \<Rightarrow> uint256 \<Rightarrow> euint8 \<Rightarrow> euint8 \<Rightarrow> error + contract" where
  "dealRound s sender gameId rand0 rand1 =
     (case getGame s gameId of
        Inl e \<Rightarrow> Inl e
      | Inr g \<Rightarrow>
          if \<not> started g then Inl (GameNotReady gameId)
          else if finished g then Inl (GameAlreadyFinished gameId)
          else if dealIndex g \<ge> HAND_SIZE then Inl (HandsAlreadyDealt gameId)
          else if sender \<noteq> player0 g \<and> sender \<noteq> player1 g then Inl (NotAPlayer gameId)
          else
            let i = dealIndex g;
                used = usedMask g;
                (c0, used0) = drawUniqueCard used rand0;
                (c1, used1) = drawUniqueCard used0 rand1
            in Inr (setGame s gameId
                 (g\<lparr> hand0 := (hand0 g)[unat i := c0],
                     hand1 := (hand1 g)[unat i := c1],
                     usedMask := used1,
                     dealIndex := i + 1 \<rparr>)))"

definition playCard :: "contract \<Rightarrow> address \<Rightarrow> uint256 \<Rightarrow> 8 word \<Rightarrow> error + contract" where
  "playCard s sender gameId handIndex =
     (case getGame s gameId of
        Inl e \<Rightarrow> Inl e
      | Inr g \<Rightarrow>
          if \<not> started g then Inl (GameNotReady gameId)
          else if finished g then Inl (GameAlreadyFinished gameId)
          else if dealIndex g < HAND_SIZE then Inl (HandsNotDealt gameId)
          else if handIndex \<ge> HAND_SIZE then Inl (InvalidHandIndex handIndex)
          else
            let isP0 = (sender = player0 g);
                isP1 = (sender = player1 g)
            in if \<not> isP0 \<and> \<not> isP1 then Inl (NotAPlayer gameId)
               else if isP0 \<and> hasPlayed0 g then Inl (AlreadyPlayed gameId)
               else if \<not> isP0 \<and> hasPlayed1 g then Inl (AlreadyPlayed gameId)
               else
                 let g1 = (if isP0 then g\<lparr> hasPlayed0 := True, playedIndex0 := handIndex \<rparr>
                           else g\<lparr> hasPlayed1 := True, playedIndex1 := handIndex \<rparr>)
                 in if hasPlayed0 g1 \<and> hasPlayed1 g1
                    then (case finishGame g1 of
                            Inl e \<Rightarrow> Inl e
                          | Inr g2 \<Rightarrow> Inr (setGame s gameId g2))
                    else Inr (setGame s gameId g1))"

subsection \<open>The read-only queries\<close>


definition getResult :: "contract \<Rightarrow> uint256 \<Rightarrow> error + bool option" where
  "getResult s gameId =
     (case getGame s gameId of
        Inl e \<Rightarrow> Inl e
      | Inr g \<Rightarrow> Inr (p0Wins g))"

subsection \<open>Transactions and runs\<close>

text \<open>
  A transaction is one external call. A call that reverts leaves the storage as it was;
  the ledger runs the transactions one after the other.
\<close>

datatype tx =
    CreateGame address uint256
  | JoinGame address uint256
  | StartGame address uint256
  | DealRound address uint256 euint8 euint8
  | PlayCard address uint256 "8 word"

fun exec :: "contract \<Rightarrow> tx \<Rightarrow> error + contract" where
  "exec s (CreateGame sender timestamp) =
     (case createGame s sender timestamp of Inl e \<Rightarrow> Inl e | Inr (gameId, s') \<Rightarrow> Inr s')"
| "exec s (JoinGame sender gameId) = joinGame s sender gameId"
| "exec s (StartGame sender gameId) = startGame s sender gameId"
| "exec s (DealRound sender gameId rand0 rand1) = dealRound s sender gameId rand0 rand1"
| "exec s (PlayCard sender gameId handIndex) = playCard s sender gameId handIndex"

definition transact :: "contract \<Rightarrow> tx \<Rightarrow> contract" where
  "transact s t = (case exec s t of Inl e \<Rightarrow> s | Inr s' \<Rightarrow> s')"

fun run :: "contract \<Rightarrow> tx list \<Rightarrow> contract" where
  "run s [] = s"
| "run s (t # ts) = run (transact s t) ts"

text \<open>The random values of a transaction are in the range of \<open>FHE.randEuint8(64)\<close>.\<close>

fun rand_ok :: "tx \<Rightarrow> bool" where
  "rand_ok (DealRound sender gameId rand0 rand1) = (rand0 < 64 \<and> rand1 < 64)"
| "rand_ok _ = True"

text \<open>The cards dealt so far to the two hands of a session: \<open>dealIndex\<close> cards each.\<close>

definition dealt0 :: "game \<Rightarrow> euint8 list" where
  "dealt0 g = take (unat (dealIndex g)) (hand0 g)"

definition dealt1 :: "game \<Rightarrow> euint8 list" where
  "dealt1 g = take (unat (dealIndex g)) (hand1 g)"

text \<open>\<open>p\<close> is the position of the least significant zero bit of \<open>m\<close>.\<close>

definition lowest_zero_bit :: "64 word \<Rightarrow> nat \<Rightarrow> bool" where
  "lowest_zero_bit m p = (\<not> bit m p \<and> list_all (bit m) [0..<p])"

subsection \<open>Invariants of a session\<close>

definition deal_inv :: "game \<Rightarrow> bool" where
  "deal_inv g \<longleftrightarrow>
     length (hand0 g) = 6 \<and> length (hand1 g) = 6 \<and> unat (dealIndex g) \<le> 6 \<and>
     distinct (dealt0 g @ dealt1 g) \<and>
     (\<forall>c \<in> set (dealt0 g @ dealt1 g). unat c < 52) \<and>
     (\<forall>i. bit (usedMask g) i \<longleftrightarrow> i \<in> unat ` set (dealt0 g @ dealt1 g))"

definition flag_inv :: "game \<Rightarrow> bool" where
  "flag_inv g \<longleftrightarrow>
     (started g \<longrightarrow> player0 g \<noteq> 0 \<and> player1 g \<noteq> 0) \<and>
     (player0 g \<noteq> 0 \<longrightarrow> player0 g \<noteq> player1 g) \<and>
     (player1 g \<noteq> 0 \<longrightarrow> player0 g \<noteq> 0) \<and>
     (\<not> started g \<longrightarrow> dealIndex g = 0) \<and>
     (finished g \<longleftrightarrow> hasPlayed0 g \<and> hasPlayed1 g) \<and>
     (p0Wins g \<noteq> None \<longleftrightarrow> finished g) \<and>
     (hasPlayed0 g \<or> hasPlayed1 g \<longrightarrow> started g \<and> \<not> dealIndex g < 6) \<and>
     playedIndex0 g < 6 \<and> playedIndex1 g < 6"

text \<open>
  The index \<open>f\<close> gives every listed id its position plus one, and 0 to every other id.
\<close>

definition idx_ok :: "uint256 list \<Rightarrow> (uint256 \<Rightarrow> nat) \<Rightarrow> bool" where
  "idx_ok ids f \<longleftrightarrow>
     (\<forall>i<length ids. f (ids ! i) = i + 1) \<and>
     (\<forall>x. f x \<noteq> 0 \<longrightarrow> f x \<le> length ids \<and> ids ! (f x - 1) = x)"

definition open_inv :: "contract \<Rightarrow> bool" where
  "open_inv s \<longleftrightarrow>
     idx_ok (openGameIds s) (openIndexPlusOne s) \<and>
     (\<forall>gameId \<in> set (openGameIds s). gameId < nextGameId s)"

definition contract_inv :: "contract \<Rightarrow> bool" where
  "contract_inv s \<longleftrightarrow>
     (\<forall>gameId. flag_inv (games s gameId) \<and> deal_inv (games s gameId)) \<and>
     (\<forall>gameId. nextGameId s \<le> gameId \<longrightarrow> games s gameId = empty_game) \<and>
     open_inv s"

subsection \<open>Concrete runs\<close>

text \<open>
  A session between the players 1 and 2: created; joined; up to the start; dealt, with
  the card of player 1 played; and played to the end.
\<close>

definition created_txs :: "tx list" where
  "created_txs = [CreateGame 1 100]"

definition joined_txs :: "tx list" where
  "joined_txs = [CreateGame 1 100, JoinGame 2 0]"

definition started_txs :: "tx list" where
  "started_txs = [CreateGame 1 100, JoinGame 2 0, StartGame 1 0]"

definition played_once_txs :: "tx list" where
  "played_once_txs = [CreateGame 1 100, JoinGame 2 0, StartGame 1 0,
     DealRound 1 0 5 5, DealRound 2 0 63 0, DealRound 1 0 51 52,
     DealRound 1 0 0 0, DealRound 1 0 7 6, DealRound 1 0 33 12,
     PlayCard 1 0 0]"

definition demo_txs :: "tx list" where
  "demo_txs = played_once_txs @ [PlayCard 2 0 3]"

section \<open>The first zero bit\<close>

lemma lowest_zero_bit_iff: "lowest_zero_bit m p \<longleftrightarrow> (\<not> bit m p \<and> (\<forall>j<p. bit m j))"
  by (auto simp: lowest_zero_bit_def list_all_iff)

lemma and_mask_full: "(m AND mask k = mask k) \<longleftrightarrow> (\<forall>i<k. i < 64 \<longrightarrow> bit m i)" for m :: "64 word"
  by (auto simp: bit_eq_iff bit_simps)

lemma unat_of_nat_bits: "k < 64 \<Longrightarrow> unat (of_nat k :: 8 word) mod 64 = k"
  by (simp add: unat_of_nat)

lemma skip_full:
  assumes "m AND mask k = mask k" "k < 64"
  shows "skipIfLowerFull m idx (of_nat k) (mask k) = (drop_bit k m, idx + of_nat k)"
  using assms by (simp add: skipIfLowerFull_def FHE_eq_def FHE_select_def FHE_shr_def FHE_add_def Let_def unat_of_nat_bits)

lemma skip_not_full:
  assumes "m AND mask k \<noteq> mask k"
  shows "skipIfLowerFull m idx bits (mask k) = (m, idx)"
  using assms by (simp add: skipIfLowerFull_def FHE_eq_def FHE_select_def Let_def)

lemma lowest_zero_bit_drop:
  assumes "lowest_zero_bit m q" "k \<le> q"
  shows "lowest_zero_bit (drop_bit k m) (q - k)"
  unfolding lowest_zero_bit_iff
proof (intro conjI allI impI)
  show "\<not> bit (drop_bit k m) (q - k)" using assms by (simp add: lowest_zero_bit_iff bit_drop_bit_eq)
next
  fix j assume "j < q - k"
  then have "k + j < q" by simp
  then have "bit m (k + j)" using assms(1) by (simp add: lowest_zero_bit_iff)
  then show "bit (drop_bit k m) j" by (simp add: bit_drop_bit_eq)
qed


lemma skip_step:
  assumes lz: "lowest_zero_bit m q" and q: "q < 2 * k" and k: "k < 64"
    and sk: "skipIfLowerFull m idx (of_nat k) (mask k) = (m', idx')"
  shows "\<exists>q'<k. lowest_zero_bit m' q' \<and> idx' + of_nat q' = idx + of_nat q"
proof (cases "m AND mask k = mask k")
  case True
  then have full: "\<forall>i<k. bit m i" using k by (simp add: and_mask_full)
  from sk have m': "m' = drop_bit k m" and idx': "idx' = idx + of_nat k"
    unfolding skip_full[OF True k] by simp_all
  from lz full have qk: "k \<le> q" unfolding lowest_zero_bit_iff by (meson not_le_imp_less)
  have "lowest_zero_bit m' (q - k)"
    unfolding m' using lz qk by (rule lowest_zero_bit_drop)
  moreover have "q - k < k" using q qk by simp
  moreover have "idx' + of_nat (q - k) = idx + of_nat q" using qk by (simp add: idx')
  ultimately show ?thesis by blast
next
  case False
  then obtain i where i: "i < k" "\<not> bit m i" unfolding and_mask_full by blast
  from sk have m': "m' = m" and idx': "idx' = idx"
    unfolding skip_not_full[OF False] by simp_all
  have "q < k"
  proof (rule ccontr)
    assume "\<not> q < k"
    then have "i < q" using i(1) by simp
    then show False using lz i(2) by (simp add: lowest_zero_bit_iff)
  qed
  then show ?thesis using lz m' idx' by blast
qed


lemma ones_masks: "(0xFFFFFFFF :: 64 word) = mask 32" "(0xFFFF :: 64 word) = mask 16"
  "(0xFF :: 64 word) = mask 8" "(0xF :: 64 word) = mask 4" "(0x3 :: 64 word) = mask 2"
  by (simp_all add: mask_eq_exp_minus_1)

lemma firstZeroBitIndex_unfold:
  assumes "skipIfLowerFull m 0 (of_nat 32) (mask 32) = (m1, i1)"
    "skipIfLowerFull m1 i1 (of_nat 16) (mask 16) = (m2, i2)"
    "skipIfLowerFull m2 i2 (of_nat 8) (mask 8) = (m3, i3)"
    "skipIfLowerFull m3 i3 (of_nat 4) (mask 4) = (m4, i4)"
    "skipIfLowerFull m4 i4 (of_nat 2) (mask 2) = (m5, i5)"
  shows "firstZeroBitIndex m = (if bit m5 0 then i5 + 1 else i5)"
proof -
  have low: "(m5 AND 1 = 1) \<longleftrightarrow> bit m5 0"
    using and_mask_full[of m5 1] by simp
  show ?thesis
    unfolding firstZeroBitIndex_def ones_masks Let_def
    using assms low by (simp add: FHE_eq_def FHE_select_def FHE_add_def)
qed

lemma firstZeroBitIndex_lowest:
  assumes lz: "lowest_zero_bit m q" and q64: "q < 64"
  shows "firstZeroBitIndex m = of_nat q"
proof -
  have q0: "q < 2 * 32" using q64 by simp
  obtain m1 i1 where s1: "skipIfLowerFull m 0 (of_nat 32) (mask 32) = (m1, i1)" by fastforce
  obtain m2 i2 where s2: "skipIfLowerFull m1 i1 (of_nat 16) (mask 16) = (m2, i2)" by fastforce
  obtain m3 i3 where s3: "skipIfLowerFull m2 i2 (of_nat 8) (mask 8) = (m3, i3)" by fastforce
  obtain m4 i4 where s4: "skipIfLowerFull m3 i3 (of_nat 4) (mask 4) = (m4, i4)" by fastforce
  obtain m5 i5 where s5: "skipIfLowerFull m4 i4 (of_nat 2) (mask 2) = (m5, i5)" by fastforce
  from skip_step[OF lz q0 _ s1] obtain q1 where
    q1: "q1 < 2 * 16" "lowest_zero_bit m1 q1" "i1 + of_nat q1 = of_nat q" by auto
  from skip_step[OF q1(2) q1(1) _ s2] obtain q2 where
    q2: "q2 < 2 * 8" "lowest_zero_bit m2 q2" "i2 + of_nat q2 = i1 + of_nat q1" by auto
  from skip_step[OF q2(2) q2(1) _ s3] obtain q3 where
    q3: "q3 < 2 * 4" "lowest_zero_bit m3 q3" "i3 + of_nat q3 = i2 + of_nat q2" by auto
  from skip_step[OF q3(2) q3(1) _ s4] obtain q4 where
    q4: "q4 < 2 * 2" "lowest_zero_bit m4 q4" "i4 + of_nat q4 = i3 + of_nat q3" by auto
  from skip_step[OF q4(2) q4(1) _ s5] obtain q5 where
    q5: "q5 < 2" "lowest_zero_bit m5 q5" "i5 + of_nat q5 = i4 + of_nat q4" by auto
  have tot: "i5 + of_nat q5 = of_nat q" using q1(3) q2(3) q3(3) q4(3) q5(3) by simp
  have fin: "(if bit m5 0 then i5 + 1 else i5) = i5 + of_nat q5"
  proof (cases "bit m5 0")
    case True
    have "q5 \<noteq> 0"
    proof
      assume "q5 = 0"
      then show False using q5(2) True by (simp add: lowest_zero_bit_iff)
    qed
    then have "q5 = 1" using q5(1) by simp
    then show ?thesis using True by simp
  next
    case False
    have "q5 = 0"
    proof (rule ccontr)
      assume "q5 \<noteq> 0"
      then have "0 < q5" by simp
      then show False using q5(2) False by (simp add: lowest_zero_bit_iff)
    qed
    then show ?thesis using False by simp
  qed
  show ?thesis
    unfolding firstZeroBitIndex_unfold[OF s1 s2 s3 s4 s5] fin tot ..
qed

lemma DUMMY_eq: "DUMMY_USED_MASK = NOT (mask 52)"
  by (simp add: DUMMY_USED_MASK_def mask_eq_exp_minus_1)

lemma bit_DUMMY: "bit DUMMY_USED_MASK i \<longleftrightarrow> 52 \<le> i \<and> i < 64"
  unfolding DUMMY_eq by (auto simp: bit_simps)

lemma bit_FHE_rotr: "bit (FHE_rotr w n) i \<longleftrightarrow> i < 64 \<and> bit w ((i + unat n) mod 64)"
  by (simp add: FHE_rotr_def bit_word_rotr_iff mod_simps)

lemma unat_card: "unat ((of_nat p + start) AND 63 :: 8 word) = (p + unat start) mod 64"
proof -
  have "(63 :: 8 word) = mask 6" by (simp add: mask_eq_exp_minus_1)
  then have "unat ((of_nat p + start) AND 63 :: 8 word) = unat (take_bit 6 (of_nat p + start :: 8 word))"
    by (simp add: take_bit_eq_mask)
  also have "\<dots> = unat (of_nat p + start :: 8 word) mod 64"
    by (simp add: take_bit_eq_mod unat_mod)
  also have "unat (of_nat p + start :: 8 word) = (p + unat start) mod 256"
    by (simp add: unat_word_ariths unat_of_nat mod_simps)
  also have "(p + unat start) mod 256 mod 64 = (p + unat start) mod 64"
    by (simp add: mod_mod_cancel)
  finally show ?thesis .
qed


lemma exists_lowest_zero_bit:
  assumes "\<not> bit (m :: 64 word) i"
  shows "\<exists>p\<le>i. lowest_zero_bit m p"
proof -
  let ?p = "LEAST j. \<not> bit m j"
  have "\<not> bit m ?p" using assms by (rule LeastI)
  moreover have "\<forall>j<?p. bit m j" using not_less_Least by blast
  moreover have "?p \<le> i" using assms by (rule Least_le)
  ultimately show ?thesis unfolding lowest_zero_bit_iff by blast
qed

lemma not_all_ones_zero_bit: "m \<noteq> - 1 \<Longrightarrow> \<exists>i<64. \<not> bit m i" for m :: "64 word"
  by (auto simp: bit_eq_iff bit_simps)

lemma rotated_has_zero:
  assumes "i < 52" "\<not> bit um i"
  shows "\<exists>j<64. \<not> bit (FHE_rotr (um OR DUMMY_USED_MASK) start) j"
proof -
  let ?s = "unat start mod 64"
  let ?j = "(i + 64 - ?s) mod 64"
  have s64: "?s < 64" by simp
  have "(?j + unat start) mod 64 = (?j + ?s) mod 64" by presburger
  also have "\<dots> = (i + 64 - ?s + ?s) mod 64" by presburger
  also have "i + 64 - ?s + ?s = i + 64" using s64 by simp
  also have "(i + 64) mod 64 = i" using assms(1) by simp
  finally have "(?j + unat start) mod 64 = i" .
  then have "\<not> bit (FHE_rotr (um OR DUMMY_USED_MASK) start) ?j"
    using assms by (simp add: bit_FHE_rotr bit_or_iff bit_DUMMY)
  moreover have "?j < 64" by simp
  ultimately show ?thesis by blast
qed

lemma draw_correct:
  assumes free: "i < 52" "\<not> bit um i"
  shows "\<exists>p<64. lowest_zero_bit (FHE_rotr (um OR DUMMY_USED_MASK) start) p \<and>
     unat (firstZeroBitIndex (FHE_rotr (um OR DUMMY_USED_MASK) start)) = p \<and>
     unat (fst (drawUniqueCard um start)) = (p + unat start) mod 64 \<and>
     unat (fst (drawUniqueCard um start)) < 52 \<and>
     \<not> bit um (unat (fst (drawUniqueCard um start))) \<and>
     snd (drawUniqueCard um start) = um OR push_bit (unat (fst (drawUniqueCard um start))) 1"
proof -
  let ?rot = "FHE_rotr (um OR DUMMY_USED_MASK) start"
  from rotated_has_zero[OF free] obtain j where j: "j < 64" "\<not> bit ?rot j" by blast
  from exists_lowest_zero_bit[OF j(2)] obtain p where p: "p \<le> j" "lowest_zero_bit ?rot p" by blast
  have p64: "p < 64" using p(1) j(1) by simp
  have fz: "firstZeroBitIndex ?rot = of_nat p" using p(2) p64 by (rule firstZeroBitIndex_lowest)
  have upos: "unat (firstZeroBitIndex ?rot) = p" unfolding fz using p64 by (simp add: unat_of_nat)
  let ?c = "(of_nat p + start) AND 63 :: 8 word"
  have card: "fst (drawUniqueCard um start) = ?c"
    by (simp add: drawUniqueCard_def Let_def fz FHE_add_def)
  have uc: "unat ?c = (p + unat start) mod 64" by (rule unat_card)
  have nz: "\<not> bit (um OR DUMMY_USED_MASK) (unat ?c)"
    using p(2) p64 unfolding uc by (simp add: lowest_zero_bit_iff bit_FHE_rotr)
  then have c52: "unat ?c < 52" and cfree: "\<not> bit um (unat ?c)"
    unfolding uc by (simp_all add: bit_or_iff bit_DUMMY)
  have c64: "unat ?c mod 64 = unat ?c" unfolding uc by simp
  have nm: "snd (drawUniqueCard um start) = um OR push_bit (unat ?c) 1"
    by (simp add: drawUniqueCard_def Let_def fz FHE_add_def FHE_shl_def c64)
  show ?thesis using p64 p(2) upos card uc c52 cfree nm by auto
qed

section \<open>One draw against the used-mask\<close>

lemma free_slot:
  assumes "length cs < 52"
  shows "\<exists>i<52. i \<notin> unat ` set (cs :: 8 word list)"
proof (rule ccontr)
  assume "\<not> ?thesis"
  then have "{..<52} \<subseteq> unat ` set cs" by auto
  then have "card {..<52::nat} \<le> card (unat ` set cs)" by (intro card_mono) auto
  also have "\<dots> \<le> card (set cs)" by (rule card_image_le) simp
  also have "\<dots> \<le> length cs" by (rule card_length)
  finally show False using assms by simp
qed

lemma bit_or_single: "bit (um OR push_bit k 1 :: 64 word) i \<longleftrightarrow> bit um i \<or> (i = k \<and> k < 64)"
  by (auto simp: bit_or_iff bit_exp_iff)

lemma draw_step:
  assumes bits: "\<forall>i. bit um i \<longleftrightarrow> i \<in> unat ` set cs"
    and len: "length cs < 52"
    and dr: "drawUniqueCard um r = (c, um')"
  shows "c \<notin> set cs \<and> unat c < 52 \<and> (\<forall>i. bit um' i \<longleftrightarrow> i \<in> unat ` set (c # cs))"
proof -
  from free_slot[OF len] obtain i where i: "i < 52" "i \<notin> unat ` set cs" by blast
  then have free: "\<not> bit um i" using bits by simp
  from draw_correct[OF i(1) free, of r] dr
  have c52: "unat c < 52" and cfree: "\<not> bit um (unat c)" and um': "um' = um OR push_bit (unat c) 1"
    by auto
  from cfree bits have "c \<notin> set cs" by auto
  moreover have "\<forall>i. bit um' i \<longleftrightarrow> i \<in> unat ` set (c # cs)"
    unfolding um' bit_or_single using bits c52 by auto
  ultimately show ?thesis using c52 by blast
qed

section \<open>The showdown comparator\<close>

lemma word8_rank: "unat (FHE_rem c RANKS) = unat c mod 13"
  by (simp add: FHE_rem_def RANKS_def unat_mod)

lemma word8_suit: "unat (FHE_div c RANKS) = unat c div 13"
  by (simp add: FHE_div_def RANKS_def unat_div)

lemma p0WinsOf_plain:
  "p0WinsOf c0 c1 \<longleftrightarrow>
     unat c1 mod 13 < unat c0 mod 13 \<or>
     (unat c0 mod 13 = unat c1 mod 13 \<and> unat c1 div 13 < unat c0 div 13)"
  unfolding p0WinsOf_def Let_def FHE_gt_def FHE_eq_def
  by (simp add: word_less_nat_alt word_unat_eq_iff word8_rank word8_suit)

text \<open>
  Claim C1. For every ordered pair of distinct card values \<open>a\<close>, \<open>b\<close> in \<open>0..51\<close> played
  from the two hands, \<open>_finishGame\<close> succeeds, finishes the session and stores as result
  the plaintext rule: \<open>rank a > rank b\<close>, or equal ranks and \<open>suit a > suit b\<close>, where
  the rank is the card modulo 13 and the suit the card divided by 13.
\<close>

theorem showdown_comparator:
  assumes "unat a < 52" and "unat b < 52" and "a \<noteq> b"
    and "playedIndex0 g < HAND_SIZE" and "playedIndex1 g < HAND_SIZE"
    and "hand0 g ! unat (playedIndex0 g) = a" and "hand1 g ! unat (playedIndex1 g) = b"
  shows "\<exists>g'. finishGame g = Inr g' \<and> finished g' \<and>
           p0Wins g' = Some (unat b mod 13 < unat a mod 13 \<or>
                             (unat a mod 13 = unat b mod 13 \<and> unat b div 13 < unat a div 13))"
  using assms(4-7) by (simp add: finishGame_def Let_def p0WinsOf_plain)

theorem showdown_comparator_witness:
  "unat (14 :: 8 word) < 52 \<and> unat (1 :: 8 word) < 52 \<and> (14 :: 8 word) \<noteq> 1 \<and>
   (\<exists>g'. finishGame (empty_game\<lparr> hand0 := [3, 14, 0, 0, 0, 0], hand1 := [1, 0, 0, 0, 0, 0],
                                  playedIndex0 := 1, playedIndex1 := 0 \<rparr>) = Inr g' \<and>
         finished g' \<and> p0Wins g' = Some True)"
proof -
  let ?g = "empty_game\<lparr> hand0 := [3, 14, 0, 0, 0, 0], hand1 := [1, 0, 0, 0, 0, 0],
                         playedIndex0 := 1, playedIndex1 := 0 \<rparr>"
  have h1: "unat (14 :: 8 word) < 52" by simp
  have h2: "unat (1 :: 8 word) < 52" by simp
  have h3: "(14 :: 8 word) \<noteq> 1" by simp
  have h4: "playedIndex0 ?g < HAND_SIZE" by (simp add: HAND_SIZE_def)
  have h5: "playedIndex1 ?g < HAND_SIZE" by (simp add: HAND_SIZE_def)
  have h6: "hand0 ?g ! unat (playedIndex0 ?g) = 14" by simp
  have h7: "hand1 ?g ! unat (playedIndex1 ?g) = 1" by simp
  from showdown_comparator[OF h1 h2 h3 h4 h5 h6 h7] h1 h2 h3 show ?thesis by simp
qed

section \<open>The draw and the first-zero-bit helper\<close>

text \<open>
  Claim C3. For every used-mask with a zero bit among bits \<open>0..51\<close> and every start
  value in \<open>0..63\<close>, one draw finds the position of the least significant zero bit of
  the rotated mask, returns the card index \<open>(position + start) mod 64\<close>, this index is
  below 52 and its bit is zero in the input mask, and the new mask is the input mask
  with the bit of that index set.
\<close>

theorem draw_unique_card:
  assumes "\<exists>i<52. \<not> bit used i" and "start < 64"
  shows "lowest_zero_bit (FHE_rotr (used OR DUMMY_USED_MASK) start)
           (unat (firstZeroBitIndex (FHE_rotr (used OR DUMMY_USED_MASK) start))) \<and>
         unat (fst (drawUniqueCard used start)) =
           (unat (firstZeroBitIndex (FHE_rotr (used OR DUMMY_USED_MASK) start)) + unat start) mod 64 \<and>
         unat (fst (drawUniqueCard used start)) < 52 \<and>
         \<not> bit used (unat (fst (drawUniqueCard used start))) \<and>
         snd (drawUniqueCard used start) =
           used OR push_bit (unat (fst (drawUniqueCard used start))) 1"
proof -
  from assms(1) obtain i where "i < 52" "\<not> bit used i" by blast
  from draw_correct[OF this, of start] show ?thesis by auto
qed

theorem draw_unique_card_witness:
  "(\<exists>i<52. \<not> bit (255 :: 64 word) i) \<and> (60 :: 8 word) < 64 \<and>
   unat (fst (drawUniqueCard 255 60)) < 52 \<and>
   \<not> bit (255 :: 64 word) (unat (fst (drawUniqueCard 255 60))) \<and>
   snd (drawUniqueCard 255 60) = 255 OR push_bit (unat (fst (drawUniqueCard 255 60))) 1"
proof -
  have "\<not> bit (255 :: 64 word) 8" by simp
  then have h1: "\<exists>i<52. \<not> bit (255 :: 64 word) i" by (intro exI[of _ 8]) simp
  have h2: "(60 :: 8 word) < 64" by simp
  from draw_unique_card[OF h1 h2] h1 h2 show ?thesis by blast
qed

text \<open>
  Claim C10, as amended. For every 64-bit mask with at least one zero bit the helper
  returns the position of the least significant zero bit, a value in \<open>0..63\<close>. For the
  all-ones mask it returns 63, the answer it also gives when bit 63 is the only zero
  bit. A used-mask with all of the bits \<open>0..51\<close> set makes the mask with sentinels all
  ones, and the draw with start 0 then returns 63, which is not below 52: the bound on
  the draw rests on the mask with sentinels never being all ones.
\<close>

theorem first_zero_bit_index:
  "(m \<noteq> - 1 \<longrightarrow> unat (firstZeroBitIndex m) < 64 \<and>
                  lowest_zero_bit m (unat (firstZeroBitIndex m))) \<and>
   firstZeroBitIndex (- 1) = 63 \<and>
   mask 52 OR DUMMY_USED_MASK = - 1 \<and>
   fst (drawUniqueCard (mask 52) 0) = 63"
proof -
  have a: "unat (firstZeroBitIndex m) < 64 \<and> lowest_zero_bit m (unat (firstZeroBitIndex m))"
    if "m \<noteq> - 1"
  proof -
    from not_all_ones_zero_bit[OF that] obtain i where i: "i < 64" "\<not> bit m i" by blast
    from exists_lowest_zero_bit[OF i(2)] obtain p where p: "p \<le> i" "lowest_zero_bit m p" by blast
    have p64: "p < 64" using p(1) i(1) by simp
    have "unat (firstZeroBitIndex m) = p"
      unfolding firstZeroBitIndex_lowest[OF p(2) p64] using p64 by (simp add: unat_of_nat)
    then show ?thesis using p64 p(2) by simp
  qed
  have b: "firstZeroBitIndex (- 1) = 63" by code_simp
  have c: "mask 52 OR DUMMY_USED_MASK = (- 1 :: 64 word)" by code_simp
  have d: "fst (drawUniqueCard (mask 52) 0) = 63" by code_simp
  show ?thesis using a b c d by blast
qed

theorem first_zero_bit_index_witness:
  "(0 :: 64 word) \<noteq> - 1 \<and> lowest_zero_bit 0 (unat (firstZeroBitIndex 0))"
proof -
  have h: "(0 :: 64 word) \<noteq> - 1" by simp
  from first_zero_bit_index[of 0] h show ?thesis by blast
qed

text \<open>Claim C10 as stated fails: on the all-ones mask the helper does not return 64.\<close>

theorem first_zero_bit_all_ones_counterexample:
  "firstZeroBitIndex (- 1) \<noteq> 64"
  by code_simp

section \<open>The transitions, case by case\<close>

lemma getGame_Inr: "getGame s gameId = Inr g \<longleftrightarrow> g = games s gameId \<and> player0 g \<noteq> 0"
  by (auto simp: getGame_def Let_def)

lemma joinGame_Inr:
  assumes "joinGame s sender gameId = Inr s'"
  shows "player0 (games s gameId) \<noteq> 0 \<and> \<not> started (games s gameId) \<and>
         player1 (games s gameId) = 0 \<and> player0 (games s gameId) \<noteq> sender \<and>
         removeOpen (setGame s gameId ((games s gameId)\<lparr> player1 := sender \<rparr>)) gameId = Inr s'"
  using assms by (auto simp: joinGame_def getGame_Inr split: sum.splits if_splits)

lemma startGame_Inr:
  assumes "startGame s sender gameId = Inr s'"
  shows "player0 (games s gameId) \<noteq> 0 \<and> player1 (games s gameId) \<noteq> 0 \<and>
         \<not> started (games s gameId) \<and>
         s' = setGame s gameId ((games s gameId)\<lparr> started := True, dealIndex := 0, usedMask := 0 \<rparr>)"
  using assms by (auto simp: startGame_def getGame_Inr split: sum.splits if_splits)

lemma dealRound_Inr:
  assumes "dealRound s sender gameId rand0 rand1 = Inr s'"
  shows "player0 (games s gameId) \<noteq> 0 \<and> started (games s gameId) \<and>
         \<not> finished (games s gameId) \<and> dealIndex (games s gameId) < HAND_SIZE \<and>
         (sender = player0 (games s gameId) \<or> sender = player1 (games s gameId)) \<and>
         s' = setGame s gameId
           ((games s gameId)\<lparr>
               hand0 := (hand0 (games s gameId))[unat (dealIndex (games s gameId)) :=
                   fst (drawUniqueCard (usedMask (games s gameId)) rand0)],
               hand1 := (hand1 (games s gameId))[unat (dealIndex (games s gameId)) :=
                   fst (drawUniqueCard (snd (drawUniqueCard (usedMask (games s gameId)) rand0)) rand1)],
               usedMask := snd (drawUniqueCard (snd (drawUniqueCard (usedMask (games s gameId)) rand0)) rand1),
               dealIndex := dealIndex (games s gameId) + 1 \<rparr>)"
  using assms
  by (auto simp: dealRound_def getGame_Inr Let_def case_prod_beta split: sum.splits if_splits)


lemma playCard_Inr:
  assumes "playCard s sender gameId handIndex = Inr s'"
  shows "player0 (games s gameId) \<noteq> 0 \<and> started (games s gameId) \<and>
         \<not> finished (games s gameId) \<and> \<not> dealIndex (games s gameId) < HAND_SIZE \<and>
         handIndex < HAND_SIZE \<and>
         (sender = player0 (games s gameId) \<or> sender = player1 (games s gameId)) \<and>
         (if sender = player0 (games s gameId) then \<not> hasPlayed0 (games s gameId)
          else \<not> hasPlayed1 (games s gameId)) \<and>
         (\<exists>g1. g1 = (if sender = player0 (games s gameId)
                      then (games s gameId)\<lparr> hasPlayed0 := True, playedIndex0 := handIndex \<rparr>
                      else (games s gameId)\<lparr> hasPlayed1 := True, playedIndex1 := handIndex \<rparr>) \<and>
               (if hasPlayed0 g1 \<and> hasPlayed1 g1
                then \<exists>g2. finishGame g1 = Inr g2 \<and> s' = setGame s gameId g2
                else s' = setGame s gameId g1))"
  using assms
  by (simp add: playCard_def getGame_Inr Let_def split: sum.splits if_splits)

lemma createGame_Inr:
  assumes "createGame s sender timestamp = Inr (gameId, s')"
  shows "nextGameId s \<noteq> - 1 \<and> gameId = nextGameId s \<and>
         s' = pushOpen (setGame (s\<lparr> nextGameId := nextGameId s + 1 \<rparr>) gameId
                ((games s gameId)\<lparr> player0 := sender, createdAt := timestamp \<rparr>)) gameId"
  using assms by (auto simp: createGame_def Let_def split: if_splits)

lemma flag_inv_join:
  assumes "flag_inv g" "player0 g \<noteq> 0" "\<not> started g" "player0 g \<noteq> sender"
  shows "flag_inv (g\<lparr> player1 := sender \<rparr>)"
  using assms by (simp add: flag_inv_def)

lemma deal_inv_join: "deal_inv g \<Longrightarrow> deal_inv (g\<lparr> player1 := sender \<rparr>)"
  by (simp add: deal_inv_def dealt0_def dealt1_def)

lemma flag_inv_start:
  assumes "flag_inv g" "player0 g \<noteq> 0" "player1 g \<noteq> 0" "\<not> started g"
  shows "flag_inv (g\<lparr> started := True, dealIndex := 0, usedMask := 0 \<rparr>)"
  using assms by (auto simp: flag_inv_def)

lemma deal_inv_start:
  "deal_inv g \<Longrightarrow> deal_inv (g\<lparr> started := True, dealIndex := 0, usedMask := 0 \<rparr>)"
  by (simp add: deal_inv_def dealt0_def dealt1_def)

lemma flag_inv_create: "flag_inv (empty_game\<lparr> player0 := sender, createdAt := timestamp \<rparr>)"
  by (simp add: flag_inv_def empty_game_def)

lemma deal_inv_create: "deal_inv (empty_game\<lparr> player0 := sender, createdAt := timestamp \<rparr>)"
  by (simp add: deal_inv_def dealt0_def dealt1_def empty_game_def)

lemma inv_empty_game: "flag_inv empty_game" "deal_inv empty_game"
  by (simp_all add: flag_inv_def deal_inv_def dealt0_def dealt1_def empty_game_def)

lemma flag_inv_deal:
  assumes "flag_inv g" "started g" "\<not> finished g" "dealIndex g < HAND_SIZE"
  shows "flag_inv (g\<lparr> hand0 := h0, hand1 := h1, usedMask := um, dealIndex := dealIndex g + 1 \<rparr>)"
  using assms by (auto simp: flag_inv_def HAND_SIZE_def)


lemma finishGame_Inr:
  assumes "playedIndex0 g < 6" "playedIndex1 g < 6"
  shows "finishGame g = Inr (g\<lparr> p0Wins := Some (p0WinsOf (hand0 g ! unat (playedIndex0 g))
                                                  (hand1 g ! unat (playedIndex1 g))),
                             finished := True \<rparr>)"
  using assms by (simp add: finishGame_def HAND_SIZE_def Let_def)

lemma playCard_game:
  assumes ok: "playCard s sender gameId handIndex = Inr s'"
    and inv: "flag_inv (games s gameId)"
  shows "\<exists>g'. s' = setGame s gameId g' \<and> flag_inv g' \<and>
           player0 g' = player0 (games s gameId) \<and> player1 g' = player1 (games s gameId) \<and>
           started g' \<and> started (games s gameId) \<and> \<not> finished (games s gameId) \<and>
           usedMask g' = usedMask (games s gameId) \<and> dealIndex g' = dealIndex (games s gameId) \<and>
           hand0 g' = hand0 (games s gameId) \<and> hand1 g' = hand1 (games s gameId) \<and>
           (p0Wins g' \<noteq> None \<longleftrightarrow> hasPlayed0 g' \<and> hasPlayed1 g') \<and>
           (hasPlayed0 g' \<and> hasPlayed1 g' \<longrightarrow>
              p0Wins g' = Some (p0WinsOf (hand0 g' ! unat (playedIndex0 g'))
                                         (hand1 g' ! unat (playedIndex1 g'))))"
proof -
  let ?g = "games s gameId"
  from playCard_Inr[OF ok] have
    pre: "player0 ?g \<noteq> 0" "started ?g" "\<not> finished ?g" "\<not> dealIndex ?g < HAND_SIZE"
      "handIndex < HAND_SIZE" "sender = player0 ?g \<or> sender = player1 ?g"
    and np: "if sender = player0 ?g then \<not> hasPlayed0 ?g else \<not> hasPlayed1 ?g"
    and res: "\<exists>g1. g1 = (if sender = player0 ?g
                      then ?g\<lparr> hasPlayed0 := True, playedIndex0 := handIndex \<rparr>
                      else ?g\<lparr> hasPlayed1 := True, playedIndex1 := handIndex \<rparr>) \<and>
               (if hasPlayed0 g1 \<and> hasPlayed1 g1
                then \<exists>g2. finishGame g1 = Inr g2 \<and> s' = setGame s gameId g2
                else s' = setGame s gameId g1)"
    by simp_all
  have h6: "handIndex < 6" using pre(5) by (simp add: HAND_SIZE_def)
  have d6: "\<not> dealIndex ?g < 6" using pre(4) by (simp add: HAND_SIZE_def)
  show ?thesis
  proof (cases "sender = player0 ?g")
    case True
    let ?g1 = "?g\<lparr> hasPlayed0 := True, playedIndex0 := handIndex \<rparr>"
    from True np have n0: "\<not> hasPlayed0 ?g" by simp
    show ?thesis
    proof (cases "hasPlayed1 ?g")
      case h1: True
      let ?g2 = "?g1\<lparr> p0Wins := Some (p0WinsOf (hand0 ?g1 ! unat (playedIndex0 ?g1))
                     (hand1 ?g1 ! unat (playedIndex1 ?g1))), finished := True \<rparr>"
      have "playedIndex0 ?g1 < 6" "playedIndex1 ?g1 < 6" using h6 inv by (simp_all add: flag_inv_def)
      note fin = finishGame_Inr[OF this]
      from res True h1 have "s' = setGame s gameId ?g2" by (simp add: fin)
      moreover have "flag_inv ?g2" using inv pre(2) h6 d6 h1 by (simp add: flag_inv_def)
      ultimately show ?thesis using pre(2,3) h1 by (intro exI[of _ ?g2]) simp
    next
      case h1: False
      from res True h1 have "s' = setGame s gameId ?g1" by simp
      moreover have "flag_inv ?g1" using inv pre(2,3) h6 d6 h1 by (simp add: flag_inv_def)
      ultimately show ?thesis using pre(2,3) h1 inv by (intro exI[of _ ?g1]) (simp add: flag_inv_def)
    qed
  next
    case False
    let ?g1 = "?g\<lparr> hasPlayed1 := True, playedIndex1 := handIndex \<rparr>"
    from False np have n1: "\<not> hasPlayed1 ?g" by simp
    show ?thesis
    proof (cases "hasPlayed0 ?g")
      case h0: True
      let ?g2 = "?g1\<lparr> p0Wins := Some (p0WinsOf (hand0 ?g1 ! unat (playedIndex0 ?g1))
                     (hand1 ?g1 ! unat (playedIndex1 ?g1))), finished := True \<rparr>"
      have "playedIndex0 ?g1 < 6" "playedIndex1 ?g1 < 6" using h6 inv by (simp_all add: flag_inv_def)
      note fin = finishGame_Inr[OF this]
      from res False h0 have "s' = setGame s gameId ?g2" by (simp add: fin)
      moreover have "flag_inv ?g2" using inv pre(2) h6 d6 h0 by (simp add: flag_inv_def)
      ultimately show ?thesis using pre(2,3) h0 by (intro exI[of _ ?g2]) simp
    next
      case h0: False
      from res False h0 have "s' = setGame s gameId ?g1" by simp
      moreover have "flag_inv ?g1" using inv pre(2,3) h6 d6 h0 by (simp add: flag_inv_def)
      ultimately show ?thesis using pre(2,3) h0 inv by (intro exI[of _ ?g1]) (simp add: flag_inv_def)
    qed
  qed
qed


lemma take_Suc_update:
  assumes "k < length xs"
  shows "take (Suc k) (xs[k := c]) = take k xs @ [c]"
  using assms by (simp add: take_Suc_conv_app_nth)

lemma deal_inv_deal:
  assumes inv: "deal_inv g" and lt: "dealIndex g < HAND_SIZE"
    and d0: "drawUniqueCard (usedMask g) rand0 = (c0, used0)"
    and d1: "drawUniqueCard used0 rand1 = (c1, used1)"
  shows "deal_inv (g\<lparr> hand0 := (hand0 g)[unat (dealIndex g) := c0],
                       hand1 := (hand1 g)[unat (dealIndex g) := c1],
                       usedMask := used1, dealIndex := dealIndex g + 1 \<rparr>)"
proof -
  let ?k = "unat (dealIndex g)"
  let ?cs = "dealt0 g @ dealt1 g"
  have k6: "?k < 6" using lt by (simp add: HAND_SIZE_def word_less_nat_alt)
  have k1: "unat (dealIndex g + 1) = Suc ?k" using k6 by (simp add: unat_word_ariths)
  have len: "length (hand0 g) = 6" "length (hand1 g) = 6" using inv by (simp_all add: deal_inv_def)
  have lcs: "length ?cs = 2 * ?k" using len k6 by (simp add: dealt0_def dealt1_def)
  have bits: "\<forall>i. bit (usedMask g) i \<longleftrightarrow> i \<in> unat ` set ?cs" using inv by (simp add: deal_inv_def)
  have dist: "distinct ?cs" and bound: "\<forall>c\<in>set ?cs. unat c < 52"
    using inv by (simp_all add: deal_inv_def)
  have l0: "length ?cs < 52" using lcs k6 by simp
  from draw_step[OF bits l0 d0] have
    s0: "c0 \<notin> set ?cs" "unat c0 < 52" "\<forall>i. bit used0 i \<longleftrightarrow> i \<in> unat ` set (c0 # ?cs)" by simp_all
  have l1: "length (c0 # ?cs) < 52" using lcs k6 by simp
  from draw_step[OF s0(3) l1 d1] have
    s1: "c1 \<notin> set (c0 # ?cs)" "unat c1 < 52" "\<forall>i. bit used1 i \<longleftrightarrow> i \<in> unat ` set (c1 # c0 # ?cs)"
    by simp_all
  let ?g' = "g\<lparr> hand0 := (hand0 g)[?k := c0], hand1 := (hand1 g)[?k := c1],
                 usedMask := used1, dealIndex := dealIndex g + 1 \<rparr>"
  have n0: "dealt0 ?g' = dealt0 g @ [c0]"
    using k6 len by (simp add: dealt0_def k1 take_Suc_update)
  have n1: "dealt1 ?g' = dealt1 g @ [c1]"
    using k6 len by (simp add: dealt1_def k1 take_Suc_update)
  have "distinct (dealt0 ?g' @ dealt1 ?g')"
    unfolding n0 n1 using dist s0(1) s1(1) by auto
  moreover have "\<forall>c\<in>set (dealt0 ?g' @ dealt1 ?g'). unat c < 52"
    unfolding n0 n1 using bound s0(2) s1(2) by auto
  moreover have "\<forall>i. bit (usedMask ?g') i \<longleftrightarrow> i \<in> unat ` set (dealt0 ?g' @ dealt1 ?g')"
    unfolding n0 n1 using s1(3) by auto
  moreover have "unat (dealIndex ?g') \<le> 6" using k1 k6 by simp
  moreover have "length (hand0 ?g') = 6" "length (hand1 ?g') = 6" using len by simp_all
  ultimately show ?thesis unfolding deal_inv_def by blast
qed

section \<open>The open-game index\<close>

lemma idx_ok_nth: "idx_ok ids f \<Longrightarrow> i < length ids \<Longrightarrow> f (ids ! i) = i + 1"
  unfolding idx_ok_def by blast

lemma idx_ok_idx: "idx_ok ids f \<Longrightarrow> f x \<noteq> 0 \<Longrightarrow> f x \<le> length ids \<and> ids ! (f x - 1) = x"
  unfolding idx_ok_def by blast

lemma idx_ok_mem:
  assumes "idx_ok ids f"
  shows "x \<in> set ids \<longleftrightarrow> f x \<noteq> 0"
proof
  assume "x \<in> set ids"
  then obtain i where "i < length ids" "ids ! i = x" by (auto simp: in_set_conv_nth)
  with assms have "f x = i + 1" using idx_ok_nth by blast
  then show "f x \<noteq> 0" by simp
next
  assume nz: "f x \<noteq> 0"
  from idx_ok_idx[OF assms nz] have a: "f x \<le> length ids" "ids ! (f x - 1) = x" by simp_all
  have "f x - 1 < length ids" using nz a(1) by simp
  then have "ids ! (f x - 1) \<in> set ids" by (rule nth_mem)
  then show "x \<in> set ids" using a(2) by simp
qed

lemma idx_ok_remove_last:
  assumes ok: "idx_ok ids f" and nz: "f gameId \<noteq> 0" and last: "f gameId - 1 = length ids - 1"
  shows "idx_ok (butlast ids) (f(gameId := 0))"
  unfolding idx_ok_def
proof (intro conjI allI impI)
  from idx_ok_idx[OF ok nz] have g: "f gameId \<le> length ids" "ids ! (f gameId - 1) = gameId" by simp_all
  have fg: "f gameId = length ids" using nz last g(1) by simp
  {
    fix i assume i: "i < length (butlast ids)"
    then have i': "i < length ids" by simp
    have "f (ids ! i) = i + 1" using ok i' by (rule idx_ok_nth)
    moreover have "ids ! i \<noteq> gameId" using calculation fg i by auto
    ultimately show "(f(gameId := 0)) (butlast ids ! i) = i + 1" using i by (simp add: nth_butlast)
  }
  {
    fix x assume x: "(f(gameId := 0)) x \<noteq> 0"
    then have xg: "x \<noteq> gameId" and fx: "f x \<noteq> 0" by (auto split: if_splits)
    from idx_ok_idx[OF ok fx] have a: "f x \<le> length ids" "ids ! (f x - 1) = x" by simp_all
    have "f x \<noteq> length ids"
    proof
      assume "f x = length ids"
      then have "ids ! (f x - 1) = ids ! (f gameId - 1)" using fg by simp
      then show False using a(2) g(2) xg by simp
    qed
    then have lt: "f x - 1 < length (butlast ids)" using a(1) fx by simp
    show "(f(gameId := 0)) x \<le> length (butlast ids)" using xg lt by simp
    show "butlast ids ! ((f(gameId := 0)) x - 1) = x" using xg lt a(2) by (simp add: nth_butlast)
  }
qed

lemma idx_ok_remove_mid:
  assumes ok: "idx_ok ids f" and nz: "f gameId \<noteq> 0" and mid: "f gameId - 1 \<noteq> length ids - 1"
  shows "idx_ok (butlast (ids[f gameId - 1 := ids ! (length ids - 1)]))
           ((f(ids ! (length ids - 1) := f gameId - 1 + 1))(gameId := 0))"
proof -
  define L where "L = length ids"
  define idx where "idx = f gameId - 1"
  define moved where "moved = ids ! (L - 1)"
  define ids' where "ids' = butlast (ids[idx := moved])"
  define f' where "f' = (f(moved := idx + 1))(gameId := 0)"
  from idx_ok_idx[OF ok nz] have g: "f gameId \<le> L" "ids ! idx = gameId"
    by (simp_all add: L_def idx_def)
  have fg: "f gameId = idx + 1" using nz by (simp add: idx_def)
  have idx: "idx < L - 1" using nz g(1) mid by (simp add: idx_def L_def)
  then have L: "L - 1 < L" by simp
  have fm: "f moved = L" using idx_ok_nth[OF ok, of "L - 1"] L by (simp add: moved_def L_def)
  have mg: "moved \<noteq> gameId"
  proof
    assume "moved = gameId"
    then have "L = idx + 1" using fm fg by simp
    then show False using idx by simp
  qed
  have len': "length ids' = L - 1" by (simp add: ids'_def L_def)
  have nth': "ids' ! i = (if i = idx then moved else ids ! i)" if "i < L - 1" for i
    using that by (simp add: ids'_def L_def nth_butlast nth_list_update)
  have f'_moved: "f' moved = idx + 1" using mg by (simp add: f'_def)
  have f'_gid: "f' gameId = 0" by (simp add: f'_def)
  have f'_other: "f' x = f x" if "x \<noteq> moved" "x \<noteq> gameId" for x
    using that by (simp add: f'_def)
  have a: "f' (ids' ! i) = i + 1" if i: "i < L - 1" for i
  proof (cases "i = idx")
    case True
    then show ?thesis using nth'[OF i] f'_moved by simp
  next
    case False
    have fi: "f (ids ! i) = i + 1" using idx_ok_nth[OF ok, of i] i by (simp add: L_def)
    have n1: "ids ! i \<noteq> gameId"
    proof
      assume "ids ! i = gameId"
      then have "i + 1 = idx + 1" using fi fg by simp
      then show False using False by simp
    qed
    have n2: "ids ! i \<noteq> moved"
    proof
      assume "ids ! i = moved"
      then have "i + 1 = L" using fi fm by simp
      then show False using i by simp
    qed
    show ?thesis using nth'[OF i] False f'_other[OF n2 n1] fi by simp
  qed
  have b: "f' x \<le> L - 1 \<and> ids' ! (f' x - 1) = x" if x: "f' x \<noteq> 0" for x
  proof (cases "x = moved")
    case True
    then show ?thesis using f'_moved idx nth'[OF idx] by simp
  next
    case False
    have xg: "x \<noteq> gameId" using x f'_gid by auto
    have fx': "f' x = f x" using False xg by (rule f'_other)
    then have fx: "f x \<noteq> 0" using x by simp
    from idx_ok_idx[OF ok fx] have c: "f x \<le> L" "ids ! (f x - 1) = x" by (simp_all add: L_def)
    have "f x \<noteq> L"
    proof
      assume "f x = L"
      then have "x = moved" using c(2) by (simp add: moved_def)
      then show False using False by simp
    qed
    then have lt: "f x - 1 < L - 1" using c(1) fx by simp
    have ne: "f x - 1 \<noteq> idx"
    proof
      assume "f x - 1 = idx"
      then have "x = gameId" using c(2) g(2) by simp
      then show False using xg by simp
    qed
    show ?thesis using nth'[OF lt] ne c(2) fx' lt by simp
  qed
  have "idx_ok ids' f'" unfolding idx_ok_def len' using a b by blast
  then show ?thesis by (simp add: ids'_def f'_def moved_def idx_def L_def)
qed

lemma idx_ok_push:
  assumes ok: "idx_ok ids f" and fresh: "n \<notin> set ids"
  shows "idx_ok (ids @ [n]) (f(n := length ids + 1))"
proof -
  have a: "(f(n := length ids + 1)) ((ids @ [n]) ! i) = i + 1" if i: "i < length (ids @ [n])" for i
  proof (cases "i < length ids")
    case True
    then have "ids ! i \<in> set ids" by simp
    then have "ids ! i \<noteq> n" using fresh by auto
    moreover have "f (ids ! i) = i + 1" using ok True by (rule idx_ok_nth)
    ultimately show ?thesis using True by (simp add: nth_append)
  next
    case False
    then have "i = length ids" using i by simp
    then show ?thesis by simp
  qed
  have b: "(f(n := length ids + 1)) x \<le> length (ids @ [n]) \<and>
        (ids @ [n]) ! ((f(n := length ids + 1)) x - 1) = x"
    if nz: "(f(n := length ids + 1)) x \<noteq> 0" for x
  proof (cases "x = n")
    case True
    then show ?thesis by simp
  next
    case False
    with nz have nz': "f x \<noteq> 0" by simp
    from idx_ok_idx[OF ok nz'] have c: "f x \<le> length ids" "ids ! (f x - 1) = x" by simp_all
    have "f x - 1 < length ids" using nz' c(1) by simp
    then show ?thesis using False c by (simp add: nth_append)
  qed
  show ?thesis unfolding idx_ok_def using a b by blast
qed

lemma word_less_succ:
  fixes n :: "'a::len word"
  assumes "n \<noteq> - 1"
  shows "n < n + 1" and "x < n \<Longrightarrow> x < n + 1" and "n + 1 \<le> y \<Longrightarrow> n < y"
proof -
  have "1 + n \<noteq> 0" using assms by (metis add.commute add_eq_0_iff)
  then have "unat (1 + n) = Suc (unat n)" by (rule unatSuc)
  then have u: "unat (n + 1) = Suc (unat n)" by (simp add: add.commute)
  show "n < n + 1" by (simp add: word_less_nat_alt u)
  show "x < n \<Longrightarrow> x < n + 1" by (simp add: word_less_nat_alt u)
  show "n + 1 \<le> y \<Longrightarrow> n < y" by (simp add: word_less_nat_alt word_le_nat_alt u)
qed

lemma open_inv_push:
  assumes inv: "open_inv s" and nmax: "nextGameId s \<noteq> - 1"
  shows "open_inv (pushOpen (setGame (s\<lparr> nextGameId := nextGameId s + 1 \<rparr>) (nextGameId s) g)
                    (nextGameId s))"
proof -
  let ?n = "nextGameId s"
  let ?s' = "pushOpen (setGame (s\<lparr> nextGameId := ?n + 1 \<rparr>) ?n g) ?n"
  have ids': "openGameIds ?s' = openGameIds s @ [?n]" by (simp add: pushOpen_def setGame_def)
  have f': "openIndexPlusOne ?s' = (openIndexPlusOne s)(?n := length (openGameIds s) + 1)"
    by (simp add: pushOpen_def setGame_def)
  have n': "nextGameId ?s' = ?n + 1" by (simp add: pushOpen_def setGame_def)
  have ok: "idx_ok (openGameIds s) (openIndexPlusOne s)" using inv by (simp add: open_inv_def)
  have old: "\<forall>x\<in>set (openGameIds s). x < ?n" using inv by (simp add: open_inv_def)
  then have fresh: "?n \<notin> set (openGameIds s)" by auto
  have "\<forall>x\<in>set (openGameIds s @ [?n]). x < ?n + 1"
    using old word_less_succ(1,2)[OF nmax] by auto
  then show ?thesis unfolding open_inv_def ids' f' n' using idx_ok_push[OF ok fresh] by blast
qed

lemma removeOpen_ok:
  assumes ok: "idx_ok (openGameIds s) (openIndexPlusOne s)"
  shows "\<exists>s'. removeOpen s gameId = Inr s' \<and>
           idx_ok (openGameIds s') (openIndexPlusOne s') \<and>
           openIndexPlusOne s' gameId = 0 \<and>
           (\<forall>x. openIndexPlusOne s' x \<noteq> 0 \<longrightarrow> openIndexPlusOne s x \<noteq> 0) \<and>
           games s' = games s \<and> nextGameId s' = nextGameId s"
proof (cases "openIndexPlusOne s gameId = 0")
  case True
  then have "removeOpen s gameId = Inr s" by (simp add: removeOpen_def)
  then show ?thesis using ok True by simp
next
  case nz: False
  let ?ids = "openGameIds s"
  let ?f = "openIndexPlusOne s"
  from idx_ok_idx[OF ok nz] have g: "?f gameId \<le> length ?ids" by simp
  then have ne: "length ?ids \<noteq> 0" using nz by auto
  have lt: "?f gameId - 1 < length ?ids" using g nz by simp
  show ?thesis
  proof (cases "?f gameId - 1 = length ?ids - 1")
    case True
    let ?s' = "s\<lparr> openGameIds := butlast ?ids, openIndexPlusOne := ?f(gameId := 0) \<rparr>"
    have "removeOpen s gameId = Inr ?s'"
      using nz ne True by (simp add: removeOpen_def Let_def)
    moreover have "idx_ok (openGameIds ?s') (openIndexPlusOne ?s')"
      using idx_ok_remove_last[OF ok nz True] by simp
    ultimately show ?thesis by (intro exI[of _ ?s']) simp
  next
    case False
    let ?moved = "?ids ! (length ?ids - 1)"
    let ?s' = "s\<lparr> openGameIds := butlast (?ids[?f gameId - 1 := ?moved]),
                   openIndexPlusOne := (?f(?moved := ?f gameId - 1 + 1))(gameId := 0) \<rparr>"
    have "removeOpen s gameId = Inr ?s'"
      using nz ne False lt by (simp add: removeOpen_def Let_def)
    moreover have "idx_ok (openGameIds ?s') (openIndexPlusOne ?s')"
      using idx_ok_remove_mid[OF ok nz False] by simp
    moreover have "?f ?moved \<noteq> 0"
      using idx_ok_nth[OF ok, of "length ?ids - 1"] ne by simp
    ultimately show ?thesis by (intro exI[of _ ?s']) simp
  qed
qed


lemma removeOpen_open_inv:
  assumes inv: "open_inv s"
  shows "\<exists>s'. removeOpen s gameId = Inr s' \<and> open_inv s' \<and>
           gameId \<notin> set (openGameIds s') \<and>
           games s' = games s \<and> nextGameId s' = nextGameId s"
proof -
  have ok: "idx_ok (openGameIds s) (openIndexPlusOne s)" using inv by (simp add: open_inv_def)
  from removeOpen_ok[OF ok, of gameId] obtain s' where
    r: "removeOpen s gameId = Inr s'" and ok': "idx_ok (openGameIds s') (openIndexPlusOne s')"
    and z: "openIndexPlusOne s' gameId = 0"
    and sub: "\<forall>x. openIndexPlusOne s' x \<noteq> 0 \<longrightarrow> openIndexPlusOne s x \<noteq> 0"
    and same: "games s' = games s" "nextGameId s' = nextGameId s"
    by blast
  have "gameId \<notin> set (openGameIds s')" using idx_ok_mem[OF ok', of gameId] z by simp
  moreover have "\<forall>x\<in>set (openGameIds s'). x < nextGameId s'"
  proof
    fix x assume "x \<in> set (openGameIds s')"
    then have "openIndexPlusOne s' x \<noteq> 0" using idx_ok_mem[OF ok'] by simp
    then have "openIndexPlusOne s x \<noteq> 0" using sub by simp
    then have "x \<in> set (openGameIds s)" using idx_ok_mem[OF ok] by simp
    then show "x < nextGameId s'" using inv same(2) by (simp add: open_inv_def)
  qed
  ultimately show ?thesis using r ok' same unfolding open_inv_def by blast
qed


section \<open>The invariant of the storage\<close>

lemma open_inv_setGame: "open_inv (setGame s gameId g) = open_inv s"
  by (simp add: open_inv_def setGame_def)

lemma contract_inv_known:
  assumes "contract_inv s" "player0 (games s gameId) \<noteq> 0"
  shows "\<not> nextGameId s \<le> gameId"
proof
  assume "nextGameId s \<le> gameId"
  with assms(1) have "games s gameId = empty_game" by (simp add: contract_inv_def)
  with assms(2) show False by (simp add: empty_game_def)
qed

lemma contract_inv_setGame:
  assumes inv: "contract_inv s" and known: "player0 (games s gameId) \<noteq> 0"
    and g: "flag_inv g" "deal_inv g"
  shows "contract_inv (setGame s gameId g)"
proof -
  have k: "\<not> nextGameId s \<le> gameId" using inv known by (rule contract_inv_known)
  have a: "\<forall>x. flag_inv (games (setGame s gameId g) x) \<and> deal_inv (games (setGame s gameId g) x)"
    using inv g by (simp add: contract_inv_def setGame_def)
  have b: "\<forall>x. nextGameId (setGame s gameId g) \<le> x \<longrightarrow> games (setGame s gameId g) x = empty_game"
    using inv k by (auto simp: contract_inv_def setGame_def)
  have c: "open_inv (setGame s gameId g)" using inv by (simp add: open_inv_setGame contract_inv_def)
  show ?thesis unfolding contract_inv_def using a b c by blast
qed

lemma contract_inv_games:
  "contract_inv s \<Longrightarrow> flag_inv (games s gameId)" "contract_inv s \<Longrightarrow> deal_inv (games s gameId)"
  by (simp_all add: contract_inv_def)

lemma contract_inv_create:
  assumes inv: "contract_inv s" and ok: "createGame s sender timestamp = Inr (gameId, s')"
  shows "contract_inv s'"
proof -
  let ?n = "nextGameId s"
  from createGame_Inr[OF ok] have nmax: "?n \<noteq> - 1" and gid: "gameId = ?n"
    and s': "s' = pushOpen (setGame (s\<lparr> nextGameId := ?n + 1 \<rparr>) ?n
                ((games s ?n)\<lparr> player0 := sender, createdAt := timestamp \<rparr>)) ?n"
    by simp_all
  have fresh: "games s ?n = empty_game" using inv by (simp add: contract_inv_def)
  have gm: "games s' = (games s)(?n := empty_game\<lparr> player0 := sender, createdAt := timestamp \<rparr>)"
    unfolding s' by (simp add: pushOpen_def setGame_def fresh)
  have nx: "nextGameId s' = ?n + 1" unfolding s' by (simp add: pushOpen_def setGame_def)
  have a: "\<forall>x. flag_inv (games s' x) \<and> deal_inv (games s' x)"
    using inv by (simp add: gm contract_inv_def flag_inv_create deal_inv_create)
  have b: "\<forall>x. nextGameId s' \<le> x \<longrightarrow> games s' x = empty_game"
  proof (intro allI impI)
    fix x assume "nextGameId s' \<le> x"
    then have lt: "?n < x" unfolding nx by (rule word_less_succ(3)[OF nmax])
    then have "games s x = empty_game" using inv by (simp add: contract_inv_def)
    then show "games s' x = empty_game" using lt by (simp add: gm)
  qed
  have c: "open_inv s'" unfolding s' using inv nmax by (intro open_inv_push) (simp add: contract_inv_def)
  show ?thesis unfolding contract_inv_def using a b c by blast
qed

lemma contract_inv_join:
  assumes inv: "contract_inv s" and ok: "joinGame s sender gameId = Inr s'"
  shows "contract_inv s' \<and> gameId \<notin> set (openGameIds s') \<and>
         games s' = (games s)(gameId := (games s gameId)\<lparr> player1 := sender \<rparr>)"
proof -
  let ?g = "games s gameId"
  let ?s1 = "setGame s gameId (?g\<lparr> player1 := sender \<rparr>)"
  from joinGame_Inr[OF ok] have pre: "player0 ?g \<noteq> 0" "\<not> started ?g" "player1 ?g = 0"
    "player0 ?g \<noteq> sender" and r: "removeOpen ?s1 gameId = Inr s'" by simp_all
  have inv1: "contract_inv ?s1"
    using inv pre(1)
  proof (rule contract_inv_setGame)
    show "flag_inv (?g\<lparr> player1 := sender \<rparr>)"
      using contract_inv_games(1)[OF inv] pre(1,2,4) by (rule flag_inv_join)
    show "deal_inv (?g\<lparr> player1 := sender \<rparr>)"
      using contract_inv_games(2)[OF inv] by (rule deal_inv_join)
  qed
  then have "open_inv ?s1" by (simp add: contract_inv_def)
  from removeOpen_open_inv[OF this, of gameId] r have
    o: "open_inv s'" and out: "gameId \<notin> set (openGameIds s')"
    and same: "games s' = games ?s1" "nextGameId s' = nextGameId ?s1" by auto
  have "contract_inv s'" using inv1 o unfolding contract_inv_def same by simp
  then show ?thesis using out same(1) by (simp add: setGame_def)
qed


lemma contract_inv_start:
  assumes inv: "contract_inv s" and ok: "startGame s sender gameId = Inr s'"
  shows "contract_inv s' \<and> \<not> started (games s gameId) \<and>
         games s' = (games s)(gameId := (games s gameId)\<lparr> started := True, dealIndex := 0, usedMask := 0 \<rparr>)"
proof -
  let ?g = "games s gameId"
  from startGame_Inr[OF ok] have pre: "player0 ?g \<noteq> 0" "player1 ?g \<noteq> 0" "\<not> started ?g"
    and s': "s' = setGame s gameId (?g\<lparr> started := True, dealIndex := 0, usedMask := 0 \<rparr>)"
    by simp_all
  have "contract_inv s'"
    unfolding s' using inv pre(1)
  proof (rule contract_inv_setGame)
    show "flag_inv (?g\<lparr> started := True, dealIndex := 0, usedMask := 0 \<rparr>)"
      using contract_inv_games(1)[OF inv] pre by (rule flag_inv_start)
    show "deal_inv (?g\<lparr> started := True, dealIndex := 0, usedMask := 0 \<rparr>)"
      using contract_inv_games(2)[OF inv] by (rule deal_inv_start)
  qed
  then show ?thesis using pre(3) s' by (simp add: setGame_def)
qed

lemma contract_inv_deal:
  assumes inv: "contract_inv s" and ok: "dealRound s sender gameId rand0 rand1 = Inr s'"
  shows "contract_inv s' \<and> dealIndex (games s gameId) < HAND_SIZE \<and>
         (\<exists>h0 h1 um. games s' = (games s)(gameId := (games s gameId)\<lparr> hand0 := h0, hand1 := h1,
              usedMask := um, dealIndex := dealIndex (games s gameId) + 1 \<rparr>))"
proof -
  let ?g = "games s gameId"
  let ?d0 = "drawUniqueCard (usedMask ?g) rand0"
  let ?d1 = "drawUniqueCard (snd ?d0) rand1"
  let ?g' = "?g\<lparr> hand0 := (hand0 ?g)[unat (dealIndex ?g) := fst ?d0],
                  hand1 := (hand1 ?g)[unat (dealIndex ?g) := fst ?d1],
                  usedMask := snd ?d1, dealIndex := dealIndex ?g + 1 \<rparr>"
  from dealRound_Inr[OF ok] have pre: "player0 ?g \<noteq> 0" "started ?g" "\<not> finished ?g"
    "dealIndex ?g < HAND_SIZE" and s': "s' = setGame s gameId ?g'" by simp_all
  have "contract_inv s'"
    unfolding s' using inv pre(1)
  proof (rule contract_inv_setGame)
    show "flag_inv ?g'" using contract_inv_games(1)[OF inv] pre(2,3,4) by (rule flag_inv_deal)
    show "deal_inv ?g'" using contract_inv_games(2)[OF inv] pre(4)
      by (rule deal_inv_deal) simp_all
  qed
  moreover have "games s' = (games s)(gameId := ?g')" unfolding s' by (simp add: setGame_def)
  ultimately show ?thesis using pre(4) by blast
qed

lemma contract_inv_play:
  assumes inv: "contract_inv s" and ok: "playCard s sender gameId handIndex = Inr s'"
  shows "contract_inv s'"
proof -
  from playCard_game[OF ok contract_inv_games(1)[OF inv]] obtain g' where
    s': "s' = setGame s gameId g'" and f: "flag_inv g'"
    and same: "usedMask g' = usedMask (games s gameId)" "dealIndex g' = dealIndex (games s gameId)"
      "hand0 g' = hand0 (games s gameId)" "hand1 g' = hand1 (games s gameId)"
    by blast
  from playCard_Inr[OF ok] have known: "player0 (games s gameId) \<noteq> 0" by simp
  have "deal_inv g'"
    using contract_inv_games(2)[OF inv, of gameId] same
    by (simp add: deal_inv_def dealt0_def dealt1_def)
  with inv known f show ?thesis unfolding s' by (rule contract_inv_setGame)
qed

lemma contract_inv_exec:
  assumes "contract_inv s" "exec s t = Inr s'"
  shows "contract_inv s'"
proof (cases t)
  case (CreateGame sender timestamp)
  with assms(2) obtain gameId where "createGame s sender timestamp = Inr (gameId, s')"
    by (auto split: sum.splits)
  with assms(1) show ?thesis by (rule contract_inv_create)
next
  case (JoinGame sender gameId)
  with assms show ?thesis using contract_inv_join by simp
next
  case (StartGame sender gameId)
  with assms show ?thesis using contract_inv_start by simp
next
  case (DealRound sender gameId rand0 rand1)
  with assms show ?thesis using contract_inv_deal by simp
next
  case (PlayCard sender gameId handIndex)
  with assms show ?thesis using contract_inv_play by simp
qed

lemma contract_inv_transact: "contract_inv s \<Longrightarrow> contract_inv (transact s t)"
  by (auto simp: transact_def contract_inv_exec split: sum.splits)

lemma contract_inv_run: "contract_inv s \<Longrightarrow> contract_inv (run s ts)"
  by (induction ts arbitrary: s) (simp_all add: contract_inv_transact)

lemma contract_inv_init: "contract_inv init_contract"
  by (simp add: contract_inv_def init_contract_def inv_empty_game open_inv_def idx_ok_def)

lemma contract_inv_reachable: "contract_inv (run init_contract ts)"
  using contract_inv_init by (rule contract_inv_run)

section \<open>What one transaction changes\<close>

lemma flag_inv_not_started:
  assumes "flag_inv g" "\<not> started g"
  shows "\<not> finished g" "dealIndex g = 0" "p0Wins g = None"
  using assms by (auto simp: flag_inv_def)

lemma flag_inv_not_finished: "flag_inv g \<Longrightarrow> \<not> finished g \<Longrightarrow> p0Wins g = None"
  by (auto simp: flag_inv_def)

lemma exec_step:
  assumes inv: "contract_inv s" and ok: "exec s t = Inr s'"
  shows "\<exists>gameId g'. games s' = (games s)(gameId := g') \<and>
           \<not> finished (games s gameId) \<and>
           (started (games s gameId) \<longrightarrow> started g') \<and>
           unat (dealIndex (games s gameId)) \<le> unat (dealIndex g') \<and>
           (p0Wins g' \<noteq> None \<longrightarrow> (\<exists>sender handIndex. t = PlayCard sender gameId handIndex))"
proof (cases t)
  case (CreateGame sender timestamp)
  with ok obtain gameId where c: "createGame s sender timestamp = Inr (gameId, s')"
    by (auto split: sum.splits)
  let ?n = "nextGameId s"
  from createGame_Inr[OF c] have
    s': "s' = pushOpen (setGame (s\<lparr> nextGameId := ?n + 1 \<rparr>) ?n
                ((games s ?n)\<lparr> player0 := sender, createdAt := timestamp \<rparr>)) ?n"
    by simp
  have fresh: "games s ?n = empty_game" using inv by (simp add: contract_inv_def)
  have "games s' = (games s)(?n := empty_game\<lparr> player0 := sender, createdAt := timestamp \<rparr>)"
    unfolding s' by (simp add: pushOpen_def setGame_def fresh)
  then show ?thesis
    by (intro exI[of _ ?n] exI[of _ "empty_game\<lparr> player0 := sender, createdAt := timestamp \<rparr>"])
       (simp add: fresh empty_game_def)
next
  case (JoinGame sender gameId)
  with ok have j: "joinGame s sender gameId = Inr s'" by simp
  from contract_inv_join[OF inv j] have
    g: "games s' = (games s)(gameId := (games s gameId)\<lparr> player1 := sender \<rparr>)" by simp
  from joinGame_Inr[OF j] have ns: "\<not> started (games s gameId)" by simp
  note f = flag_inv_not_started[OF contract_inv_games(1)[OF inv] ns]
  show ?thesis
    by (intro exI[of _ gameId] exI[of _ "(games s gameId)\<lparr> player1 := sender \<rparr>"])
       (simp add: g f)
next
  case (StartGame sender gameId)
  with ok have j: "startGame s sender gameId = Inr s'" by simp
  from contract_inv_start[OF inv j] have ns: "\<not> started (games s gameId)"
    and g: "games s' = (games s)(gameId := (games s gameId)\<lparr> started := True, dealIndex := 0, usedMask := 0 \<rparr>)"
    by simp_all
  note f = flag_inv_not_started[OF contract_inv_games(1)[OF inv] ns]
  show ?thesis
    by (intro exI[of _ gameId]
          exI[of _ "(games s gameId)\<lparr> started := True, dealIndex := 0, usedMask := 0 \<rparr>"])
       (simp add: g f)
next
  case (DealRound sender gameId rand0 rand1)
  with ok have j: "dealRound s sender gameId rand0 rand1 = Inr s'" by simp
  from contract_inv_deal[OF inv j] obtain h0 h1 um where
    lt: "dealIndex (games s gameId) < HAND_SIZE"
    and g: "games s' = (games s)(gameId := (games s gameId)\<lparr> hand0 := h0, hand1 := h1,
              usedMask := um, dealIndex := dealIndex (games s gameId) + 1 \<rparr>)"
    by blast
  from dealRound_Inr[OF j] have nf: "\<not> finished (games s gameId)" by simp
  have "unat (dealIndex (games s gameId)) < 6" using lt by (simp add: HAND_SIZE_def word_less_nat_alt)
  then have "unat (dealIndex (games s gameId) + 1) = unat (dealIndex (games s gameId)) + 1"
    by (simp add: unat_word_ariths)
  then show ?thesis
    using nf flag_inv_not_finished[OF contract_inv_games(1)[OF inv] nf]
    by (intro exI[of _ gameId] exI[of _ "(games s gameId)\<lparr> hand0 := h0, hand1 := h1,
              usedMask := um, dealIndex := dealIndex (games s gameId) + 1 \<rparr>"])
       (simp add: g)
next
  case (PlayCard sender gameId handIndex)
  with ok have j: "playCard s sender gameId handIndex = Inr s'" by simp
  from playCard_game[OF j contract_inv_games(1)[OF inv]] obtain g' where
    "s' = setGame s gameId g'" "started g'" "\<not> finished (games s gameId)"
    "dealIndex g' = dealIndex (games s gameId)" by blast
  then show ?thesis using PlayCard
    by (intro exI[of _ gameId] exI[of _ g']) (simp add: setGame_def)
qed

lemma transact_cases:
  "(\<exists>e. exec s t = Inl e \<and> transact s t = s) \<or> (\<exists>s'. exec s t = Inr s' \<and> transact s t = s')"
  by (cases "exec s t") (simp_all add: transact_def)

lemma transact_frame:
  assumes inv: "contract_inv s"
  shows "started (games s x) \<longrightarrow> started (games (transact s t) x)"
    and "finished (games s x) \<longrightarrow> games (transact s t) x = games s x"
    and "unat (dealIndex (games s x)) \<le> unat (dealIndex (games (transact s t) x))"
    and "p0Wins (games s x) = None \<and> p0Wins (games (transact s t) x) \<noteq> None \<longrightarrow>
           (\<exists>sender handIndex. t = PlayCard sender x handIndex)"
proof -
  from transact_cases[of s t]
  have "(started (games s x) \<longrightarrow> started (games (transact s t) x)) \<and>
        (finished (games s x) \<longrightarrow> games (transact s t) x = games s x) \<and>
        unat (dealIndex (games s x)) \<le> unat (dealIndex (games (transact s t) x)) \<and>
        (p0Wins (games s x) = None \<and> p0Wins (games (transact s t) x) \<noteq> None \<longrightarrow>
           (\<exists>sender handIndex. t = PlayCard sender x handIndex))"
  proof
    assume "\<exists>e. exec s t = Inl e \<and> transact s t = s"
    then show ?thesis by auto
  next
    assume "\<exists>s'. exec s t = Inr s' \<and> transact s t = s'"
    then obtain s' where ok: "exec s t = Inr s'" and tr: "transact s t = s'" by blast
    from exec_step[OF inv ok] obtain gameId g' where
      g: "games s' = (games s)(gameId := g')" and nf: "\<not> finished (games s gameId)"
      and st: "started (games s gameId) \<longrightarrow> started g'"
      and di: "unat (dealIndex (games s gameId)) \<le> unat (dealIndex g')"
      and pw: "p0Wins g' \<noteq> None \<longrightarrow> (\<exists>sender handIndex. t = PlayCard sender gameId handIndex)"
      by blast
    show ?thesis
    proof (cases "x = gameId")
      case True
      then show ?thesis using g nf st di pw tr by simp
    next
      case False
      then have "games (transact s t) x = games s x" using g tr by simp
      then show ?thesis by auto
    qed
  qed
  then show "started (games s x) \<longrightarrow> started (games (transact s t) x)"
    and "finished (games s x) \<longrightarrow> games (transact s t) x = games s x"
    and "unat (dealIndex (games s x)) \<le> unat (dealIndex (games (transact s t) x))"
    and "p0Wins (games s x) = None \<and> p0Wins (games (transact s t) x) \<noteq> None \<longrightarrow>
           (\<exists>sender handIndex. t = PlayCard sender x handIndex)"
    by blast+
qed

section \<open>Properties of the runs of the contract\<close>

lemma run_snoc: "run s (ts @ [t]) = transact (run s ts) t"
  by (induction ts arbitrary: s) simp_all

lemma played_once_game:
  "games (run init_contract played_once_txs) 0 =
     \<lparr> player0 = 1, player1 = 2, started = True, finished = False, createdAt = 100,
       usedMask = 2251808403624447, dealIndex = 6,
       hand0 = [5, 0, 51, 3, 7, 33], hand1 = [6, 1, 2, 4, 8, 12],
       playedIndex0 = 0, playedIndex1 = 0, hasPlayed0 = True, hasPlayed1 = False,
       p0Wins = None \<rparr>"
  by code_simp

lemma last_play:
  "playCard (run init_contract played_once_txs) 2 0 3 =
     Inr (setGame (run init_contract played_once_txs) 0
       \<lparr> player0 = 1, player1 = 2, started = True, finished = True, createdAt = 100,
         usedMask = 2251808403624447, dealIndex = 6,
         hand0 = [5, 0, 51, 3, 7, 33], hand1 = [6, 1, 2, 4, 8, 12],
         playedIndex0 = 0, playedIndex1 = 3, hasPlayed0 = True, hasPlayed1 = True,
         p0Wins = Some True \<rparr>)"
proof -
  have "p0WinsOf 5 4" by code_simp
  then show ?thesis
    by (simp add: playCard_def getGame_def finishGame_def played_once_game HAND_SIZE_def)
qed

lemma demo_game:
  "games (run init_contract demo_txs) 0 =
     \<lparr> player0 = 1, player1 = 2, started = True, finished = True, createdAt = 100,
       usedMask = 2251808403624447, dealIndex = 6,
       hand0 = [5, 0, 51, 3, 7, 33], hand1 = [6, 1, 2, 4, 8, 12],
       playedIndex0 = 0, playedIndex1 = 3, hasPlayed0 = True, hasPlayed1 = True,
       p0Wins = Some True \<rparr>"
  by (simp add: demo_txs_def run_snoc transact_def last_play setGame_def)

lemma started_game:
  "games (run init_contract started_txs) 0 =
     \<lparr> player0 = 1, player1 = 2, started = True, finished = False, createdAt = 100,
       usedMask = 0, dealIndex = 0,
       hand0 = [0, 0, 0, 0, 0, 0], hand1 = [0, 0, 0, 0, 0, 0],
       playedIndex0 = 0, playedIndex1 = 0, hasPlayed0 = False, hasPlayed1 = False,
       p0Wins = None \<rparr>"
  by code_simp

lemma started_deal_ok: "\<not> isl (dealRound (run init_contract started_txs) 1 0 5 5)"
  by code_simp

lemma joinGame_started:
  "player0 (games s gameId) \<noteq> 0 \<Longrightarrow> started (games s gameId) \<Longrightarrow>
     joinGame s sender gameId = Inl (GameAlreadyStarted gameId)"
  by (simp add: joinGame_def getGame_def)

lemma startGame_started:
  "player0 (games s gameId) \<noteq> 0 \<Longrightarrow> started (games s gameId) \<Longrightarrow>
     startGame s sender gameId = Inl (GameAlreadyStarted gameId)"
  by (simp add: startGame_def getGame_def)

lemma dealRound_finished:
  "player0 (games s gameId) \<noteq> 0 \<Longrightarrow> started (games s gameId) \<Longrightarrow> finished (games s gameId) \<Longrightarrow>
     dealRound s sender gameId rand0 rand1 = Inl (GameAlreadyFinished gameId)"
  by (simp add: dealRound_def getGame_def)

lemma playCard_finished:
  "player0 (games s gameId) \<noteq> 0 \<Longrightarrow> started (games s gameId) \<Longrightarrow> finished (games s gameId) \<Longrightarrow>
     playCard s sender gameId handIndex = Inl (GameAlreadyFinished gameId)"
  by (simp add: playCard_def getGame_def)

lemma dealRound_dealt:
  "player0 (games s gameId) \<noteq> 0 \<Longrightarrow> started (games s gameId) \<Longrightarrow> \<not> finished (games s gameId) \<Longrightarrow>
     HAND_SIZE \<le> dealIndex (games s gameId) \<Longrightarrow>
     dealRound s sender gameId rand0 rand1 = Inl (HandsAlreadyDealt gameId)"
  by (simp add: dealRound_def getGame_def)

lemma flag_inv_finished:
  assumes "flag_inv g" "finished g"
  shows "started g" "player0 g \<noteq> 0" "hasPlayed0 g" "hasPlayed1 g" "p0Wins g \<noteq> None"
  using assms by (auto simp: flag_inv_def)

text \<open>
  Claim C8. In every state the contract can reach, no transaction resets \<open>started\<close> or
  \<open>finished\<close> of any session, and on a finished session \<open>joinGame\<close>, \<open>startGame\<close>,
  \<open>dealRound\<close> and \<open>playCard\<close> all revert, leaving the storage as it was; no
  transaction at all changes a finished session.
\<close>

theorem lifecycle_flags_monotone:
  fixes ts :: "tx list"
  defines "s \<equiv> run init_contract ts"
  shows "(started (games s x) \<longrightarrow> started (games (transact s t) x)) \<and>
         (finished (games s x) \<longrightarrow> finished (games (transact s t) x)) \<and>
         (finished (games s gameId) \<longrightarrow>
            joinGame s sender gameId = Inl (GameAlreadyStarted gameId) \<and>
            startGame s sender gameId = Inl (GameAlreadyStarted gameId) \<and>
            dealRound s sender gameId randA randB = Inl (GameAlreadyFinished gameId) \<and>
            playCard s sender gameId handIndex = Inl (GameAlreadyFinished gameId) \<and>
            transact s (JoinGame sender gameId) = s \<and>
            transact s (StartGame sender gameId) = s \<and>
            transact s (DealRound sender gameId randA randB) = s \<and>
            transact s (PlayCard sender gameId handIndex) = s \<and>
            games (transact s t) gameId = games s gameId)"
proof -
  have inv: "contract_inv s" unfolding s_def by (rule contract_inv_reachable)
  note fr = transact_frame[OF inv]
  have a: "started (games s x) \<longrightarrow> started (games (transact s t) x)" by (rule fr(1))
  have b: "finished (games s x) \<longrightarrow> finished (games (transact s t) x)"
    using fr(2)[of x t] by auto
  have c: "joinGame s sender gameId = Inl (GameAlreadyStarted gameId) \<and>
            startGame s sender gameId = Inl (GameAlreadyStarted gameId) \<and>
            dealRound s sender gameId randA randB = Inl (GameAlreadyFinished gameId) \<and>
            playCard s sender gameId handIndex = Inl (GameAlreadyFinished gameId) \<and>
            transact s (JoinGame sender gameId) = s \<and>
            transact s (StartGame sender gameId) = s \<and>
            transact s (DealRound sender gameId randA randB) = s \<and>
            transact s (PlayCard sender gameId handIndex) = s \<and>
            games (transact s t) gameId = games s gameId"
    if fin: "finished (games s gameId)"
  proof -
    note f = flag_inv_finished[OF contract_inv_games(1)[OF inv] fin]
    have j: "joinGame s sender gameId = Inl (GameAlreadyStarted gameId)"
      using f(2,1) by (rule joinGame_started)
    have st: "startGame s sender gameId = Inl (GameAlreadyStarted gameId)"
      using f(2,1) by (rule startGame_started)
    have d: "dealRound s sender gameId randA randB = Inl (GameAlreadyFinished gameId)"
      using f(2,1) fin by (rule dealRound_finished)
    have p: "playCard s sender gameId handIndex = Inl (GameAlreadyFinished gameId)"
      using f(2,1) fin by (rule playCard_finished)
    show ?thesis using j st d p fr(2)[of gameId t] fin by (simp add: transact_def)
  qed
  show ?thesis using a b c by blast
qed

theorem lifecycle_flags_monotone_witness:
  "started (games (run init_contract demo_txs) 0) \<and>
   finished (games (run init_contract demo_txs) 0) \<and>
   started (games (transact (run init_contract demo_txs) (StartGame 2 0)) 0) \<and>
   finished (games (transact (run init_contract demo_txs) (StartGame 2 0)) 0) \<and>
   joinGame (run init_contract demo_txs) 3 0 = Inl (GameAlreadyStarted 0) \<and>
   startGame (run init_contract demo_txs) 3 0 = Inl (GameAlreadyStarted 0) \<and>
   dealRound (run init_contract demo_txs) 3 0 9 9 = Inl (GameAlreadyFinished 0) \<and>
   playCard (run init_contract demo_txs) 3 0 1 = Inl (GameAlreadyFinished 0) \<and>
   transact (run init_contract demo_txs) (PlayCard 3 0 1) = run init_contract demo_txs"
proof -
  have h1: "started (games (run init_contract demo_txs) 0)" by (simp add: demo_game)
  have h2: "finished (games (run init_contract demo_txs) 0)" by (simp add: demo_game)
  from lifecycle_flags_monotone[where ts = demo_txs and x = 0 and t = "StartGame 2 0"
      and gameId = 0 and sender = 3 and randA = 9 and randB = 9 and handIndex = 1] h1 h2
  show ?thesis by blast
qed


lemma flag_inv_dealt_started:
  assumes "flag_inv g" "dealIndex g = HAND_SIZE"
  shows "started g" "player0 g \<noteq> 0"
  using assms by (auto simp: flag_inv_def HAND_SIZE_def)

text \<open>
  Claim C7. In every state the contract can reach, a successful \<open>dealRound\<close> increases
  \<open>dealIndex\<close> of its session by exactly 1, no transaction decreases \<open>dealIndex\<close> of any
  session, and \<open>dealRound\<close> fails once \<open>dealIndex\<close> is \<open>HAND_SIZE\<close>: with
  \<open>HandsAlreadyDealt\<close>, or with \<open>GameAlreadyFinished\<close> when the session is finished.
\<close>

theorem deal_index_monotone:
  fixes ts :: "tx list"
  defines "s \<equiv> run init_contract ts"
  shows "(dealRound s sender gameId randA randB = Inr s' \<longrightarrow>
            unat (dealIndex (games s' gameId)) = unat (dealIndex (games s gameId)) + 1) \<and>
         unat (dealIndex (games s x)) \<le> unat (dealIndex (games (transact s t) x)) \<and>
         (dealIndex (games s gameId) = HAND_SIZE \<longrightarrow>
            dealRound s sender gameId randA randB =
              Inl (if finished (games s gameId) then GameAlreadyFinished gameId
                   else HandsAlreadyDealt gameId))"
proof -
  have inv: "contract_inv s" unfolding s_def by (rule contract_inv_reachable)
  have a: "unat (dealIndex (games s' gameId)) = unat (dealIndex (games s gameId)) + 1"
    if ok: "dealRound s sender gameId randA randB = Inr s'"
  proof -
    from contract_inv_deal[OF inv ok] obtain h0 h1 um where
      lt: "dealIndex (games s gameId) < HAND_SIZE"
      and g: "games s' = (games s)(gameId := (games s gameId)\<lparr> hand0 := h0, hand1 := h1,
              usedMask := um, dealIndex := dealIndex (games s gameId) + 1 \<rparr>)"
      by blast
    have "unat (dealIndex (games s gameId)) < 6"
      using lt by (simp add: HAND_SIZE_def word_less_nat_alt)
    then have "unat (dealIndex (games s gameId) + 1) = unat (dealIndex (games s gameId)) + 1"
      by (simp add: unat_word_ariths)
    then show ?thesis by (simp add: g)
  qed
  have b: "unat (dealIndex (games s x)) \<le> unat (dealIndex (games (transact s t) x))"
    by (rule transact_frame(3)[OF inv])
  have c: "dealRound s sender gameId randA randB =
              Inl (if finished (games s gameId) then GameAlreadyFinished gameId
                   else HandsAlreadyDealt gameId)"
    if full: "dealIndex (games s gameId) = HAND_SIZE"
  proof -
    note f = flag_inv_dealt_started[OF contract_inv_games(1)[OF inv] full]
    show ?thesis
    proof (cases "finished (games s gameId)")
      case True
      then show ?thesis using dealRound_finished[OF f(2,1)] by simp
    next
      case False
      have "HAND_SIZE \<le> dealIndex (games s gameId)" using full by simp
      then show ?thesis using False dealRound_dealt[OF f(2,1) False] by simp
    qed
  qed
  show ?thesis using a b c by blast
qed

theorem deal_index_monotone_witness:
  "\<not> isl (dealRound (run init_contract started_txs) 1 0 5 5) \<and>
   unat (dealIndex (games (projr (dealRound (run init_contract started_txs) 1 0 5 5)) 0)) = 1 \<and>
   dealIndex (games (run init_contract demo_txs) 0) = HAND_SIZE \<and>
   dealRound (run init_contract demo_txs) 1 0 5 5 = Inl (GameAlreadyFinished 0)"
proof -
  let ?s = "run init_contract started_txs"
  have h1: "\<not> isl (dealRound ?s 1 0 5 5)" by (rule started_deal_ok)
  then have ok: "dealRound ?s 1 0 5 5 = Inr (projr (dealRound ?s 1 0 5 5))" by simp
  have h2: "dealIndex (games (run init_contract demo_txs) 0) = HAND_SIZE"
    by (simp add: demo_game HAND_SIZE_def)
  have fin: "finished (games (run init_contract demo_txs) 0)" by (simp add: demo_game)
  from deal_index_monotone[where ts = started_txs and sender = 1 and gameId = 0
      and randA = 5 and randB = 5 and s' = "projr (dealRound ?s 1 0 5 5)"] ok
  have a: "unat (dealIndex (games (projr (dealRound ?s 1 0 5 5)) 0)) = 1"
    by (simp add: started_game)
  from deal_index_monotone[where ts = demo_txs and sender = 1 and gameId = 0
      and randA = 5 and randB = 5] h2 fin
  have b: "dealRound (run init_contract demo_txs) 1 0 5 5 = Inl (GameAlreadyFinished 0)"
    by simp
  show ?thesis using h1 a h2 b by blast
qed


text \<open>
  Claim C4, as amended. In every state the contract can reach, the result of a session
  is present exactly when both slots have played, and exactly when the session is
  finished. A successful \<open>playCard\<close> finds the result absent and leaves it present
  exactly when both slots have then played; only \<open>playCard\<close> on the session makes the
  result present, and once it is present no transaction changes the session. A further
  \<open>playCard\<close> after both slots have played fails with \<open>GameAlreadyFinished\<close>: the
  check of \<open>finished\<close> comes before the check of the played flags.
\<close>

theorem single_showdown:
  fixes ts :: "tx list"
  defines "s \<equiv> run init_contract ts"
  shows "((p0Wins (games s x) \<noteq> None) = (hasPlayed0 (games s x) \<and> hasPlayed1 (games s x))) \<and>
         ((p0Wins (games s x) \<noteq> None) = finished (games s x)) \<and>
         (playCard s sender gameId handIndex = Inr s' \<longrightarrow>
            p0Wins (games s gameId) = None \<and>
            ((p0Wins (games s' gameId) \<noteq> None) =
               (hasPlayed0 (games s' gameId) \<and> hasPlayed1 (games s' gameId))) \<and>
            (finished (games s' gameId) = (p0Wins (games s' gameId) \<noteq> None))) \<and>
         (p0Wins (games s x) = None \<and> p0Wins (games (transact s t) x) \<noteq> None \<longrightarrow>
            (\<exists>sender' handIndex'. t = PlayCard sender' x handIndex')) \<and>
         (p0Wins (games s x) \<noteq> None \<longrightarrow> games (transact s t) x = games s x) \<and>
         (hasPlayed0 (games s gameId) \<and> hasPlayed1 (games s gameId) \<longrightarrow>
            playCard s sender gameId handIndex = Inl (GameAlreadyFinished gameId))"
proof -
  have inv: "contract_inv s" unfolding s_def by (rule contract_inv_reachable)
  have fl: "flag_inv (games s y)" for y by (rule contract_inv_games(1)[OF inv])
  have a: "(p0Wins (games s x) \<noteq> None) = (hasPlayed0 (games s x) \<and> hasPlayed1 (games s x))"
    using fl[of x] by (simp add: flag_inv_def)
  have b: "(p0Wins (games s x) \<noteq> None) = finished (games s x)"
    using fl[of x] by (simp add: flag_inv_def)
  have c: "p0Wins (games s gameId) = None \<and>
            ((p0Wins (games s' gameId) \<noteq> None) =
               (hasPlayed0 (games s' gameId) \<and> hasPlayed1 (games s' gameId))) \<and>
            (finished (games s' gameId) = (p0Wins (games s' gameId) \<noteq> None))"
    if ok: "playCard s sender gameId handIndex = Inr s'"
  proof -
    from playCard_game[OF ok fl] obtain g' where
      s': "s' = setGame s gameId g'" and f': "flag_inv g'"
      and nf: "\<not> finished (games s gameId)"
      and r: "(p0Wins g' \<noteq> None) = (hasPlayed0 g' \<and> hasPlayed1 g')"
      by blast
    have g: "games s' gameId = g'" unfolding s' by (simp add: setGame_def)
    have "p0Wins (games s gameId) = None" using fl nf by (rule flag_inv_not_finished)
    moreover have "finished g' = (p0Wins g' \<noteq> None)" using f' by (simp add: flag_inv_def)
    ultimately show ?thesis using r by (simp add: g)
  qed
  have d: "p0Wins (games s x) = None \<and> p0Wins (games (transact s t) x) \<noteq> None \<longrightarrow>
            (\<exists>sender' handIndex'. t = PlayCard sender' x handIndex')"
    by (rule transact_frame(4)[OF inv])
  have e: "p0Wins (games s x) \<noteq> None \<longrightarrow> games (transact s t) x = games s x"
    using transact_frame(2)[OF inv, of x t] b by simp
  have f: "playCard s sender gameId handIndex = Inl (GameAlreadyFinished gameId)"
    if both: "hasPlayed0 (games s gameId) \<and> hasPlayed1 (games s gameId)"
  proof -
    have fin: "finished (games s gameId)" using fl[of gameId] both by (simp add: flag_inv_def)
    note ff = flag_inv_finished[OF fl fin]
    show ?thesis using ff(2,1) fin by (rule playCard_finished)
  qed
  show ?thesis using a b c d e f by blast
qed

theorem single_showdown_witness:
  "p0Wins (games (run init_contract played_once_txs) 0) = None \<and>
   p0Wins (games (transact (run init_contract played_once_txs) (PlayCard 2 0 3)) 0) = Some True \<and>
   finished (games (transact (run init_contract played_once_txs) (PlayCard 2 0 3)) 0) \<and>
   hasPlayed0 (games (run init_contract demo_txs) 0) \<and>
   hasPlayed1 (games (run init_contract demo_txs) 0) \<and>
   playCard (run init_contract demo_txs) 1 0 2 = Inl (GameAlreadyFinished 0) \<and>
   games (transact (run init_contract demo_txs) (StartGame 1 0)) 0 =
     games (run init_contract demo_txs) 0"
proof -
  let ?s = "run init_contract played_once_txs"
  let ?d = "run init_contract demo_txs"
  let ?s' = "transact ?s (PlayCard 2 0 3)"
  have ok: "playCard ?s 2 0 3 = Inr ?s'" by (simp add: transact_def last_play)
  have after: "p0Wins (games ?s' 0) = Some True"
    by (simp add: transact_def last_play setGame_def)
  have h1: "hasPlayed0 (games ?d 0) \<and> hasPlayed1 (games ?d 0)" by (simp add: demo_game)
  have h2: "p0Wins (games ?d 0) \<noteq> None" by (simp add: demo_game)
  from single_showdown[where ts = played_once_txs and sender = 2 and gameId = 0
      and handIndex = 3 and s' = ?s'] ok after
  have a: "p0Wins (games ?s 0) = None \<and> finished (games ?s' 0)" by simp
  from single_showdown[where ts = demo_txs and sender = 1 and gameId = 0 and handIndex = 2
      and x = 0 and t = "StartGame 1 0"] h1 h2
  have b: "playCard ?d 1 0 2 = Inl (GameAlreadyFinished 0) \<and>
           games (transact ?d (StartGame 1 0)) 0 = games ?d 0" by blast
  show ?thesis using a after h1 b by blast
qed

text \<open>
  Claim C4 as stated fails: after both slots have played, a further play by slot 0 is
  rejected with \<open>GameAlreadyFinished\<close>, not with \<open>AlreadyPlayed\<close>.
\<close>

theorem third_play_counterexample:
  "hasPlayed0 (games (run init_contract demo_txs) 0) \<and>
   hasPlayed1 (games (run init_contract demo_txs) 0) \<and>
   player0 (games (run init_contract demo_txs) 0) = 1 \<and>
   playCard (run init_contract demo_txs) 1 0 0 = Inl (GameAlreadyFinished 0) \<and>
   playCard (run init_contract demo_txs) 1 0 0 \<noteq> Inl (AlreadyPlayed 0)"
proof -
  have "playCard (run init_contract demo_txs) 1 0 0 = Inl (GameAlreadyFinished 0)"
    by (rule playCard_finished) (simp_all add: demo_game)
  then show ?thesis by (simp add: demo_game)
qed

section \<open>Dealing, joining, reading hands and the open-game list\<close>

lemma deal_inv_lengths:
  assumes "deal_inv g"
  shows "length (dealt0 g) = unat (dealIndex g)" "length (dealt1 g) = unat (dealIndex g)"
  using assms by (simp_all add: deal_inv_def dealt0_def dealt1_def)

lemma deal_inv_full:
  assumes "deal_inv g" "dealIndex g = HAND_SIZE"
  shows "dealt0 g = hand0 g" "dealt1 g = hand1 g"
  using assms by (simp_all add: deal_inv_def dealt0_def dealt1_def HAND_SIZE_def)

text \<open>
  Claim C2. \<open>startGame\<close> sets the used-mask to zero and \<open>dealIndex\<close> to 0, and every
  successful \<open>dealRound\<close> appends the two cards it draws to the cards dealt so far,
  which are \<open>dealIndex\<close> cards for each hand. In every state the contract can reach, with
  the random values in \<open>0..63\<close>, \<open>dealIndex\<close> is at most \<open>HAND_SIZE\<close>, the cards dealt so
  far to the two hands of a session are pairwise distinct and each lies in \<open>0..51\<close>; once
  \<open>dealIndex\<close> is \<open>HAND_SIZE\<close> they are the two full hands, which are disjoint.
\<close>

theorem dealt_cards_unique:
  fixes ts :: "tx list"
  defines "s \<equiv> run init_contract ts"
  assumes "list_all rand_ok ts"
  shows "(startGame s sender gameId = Inr s' \<longrightarrow>
            usedMask (games s' gameId) = 0 \<and> dealt0 (games s' gameId) = [] \<and>
            dealt1 (games s' gameId) = []) \<and>
         (dealRound s sender gameId randA randB = Inr s' \<longrightarrow>
            dealt0 (games s' gameId) =
              dealt0 (games s gameId) @ [fst (drawUniqueCard (usedMask (games s gameId)) randA)] \<and>
            dealt1 (games s' gameId) =
              dealt1 (games s gameId) @
                [fst (drawUniqueCard (snd (drawUniqueCard (usedMask (games s gameId)) randA)) randB)]) \<and>
         unat (dealIndex (games s x)) \<le> unat HAND_SIZE \<and>
         length (dealt0 (games s x)) = unat (dealIndex (games s x)) \<and>
         length (dealt1 (games s x)) = unat (dealIndex (games s x)) \<and>
         distinct (dealt0 (games s x) @ dealt1 (games s x)) \<and>
         (\<forall>c \<in> set (dealt0 (games s x) @ dealt1 (games s x)). unat c < 52) \<and>
         (dealIndex (games s x) = HAND_SIZE \<longrightarrow>
            dealt0 (games s x) = hand0 (games s x) \<and> dealt1 (games s x) = hand1 (games s x) \<and>
            set (hand0 (games s x)) \<inter> set (hand1 (games s x)) = {})"
proof -
  have inv: "contract_inv s" unfolding s_def by (rule contract_inv_reachable)
  have dl: "deal_inv (games s y)" for y by (rule contract_inv_games(2)[OF inv])
  have a: "usedMask (games s' gameId) = 0 \<and> dealt0 (games s' gameId) = [] \<and>
            dealt1 (games s' gameId) = []"
    if ok: "startGame s sender gameId = Inr s'"
    using contract_inv_start[OF inv ok] by (simp add: dealt0_def dealt1_def)
  have b: "dealt0 (games s' gameId) =
              dealt0 (games s gameId) @ [fst (drawUniqueCard (usedMask (games s gameId)) randA)] \<and>
            dealt1 (games s' gameId) =
              dealt1 (games s gameId) @
                [fst (drawUniqueCard (snd (drawUniqueCard (usedMask (games s gameId)) randA)) randB)]"
    if ok: "dealRound s sender gameId randA randB = Inr s'"
  proof -
    let ?g = "games s gameId"
    from dealRound_Inr[OF ok] have lt: "dealIndex ?g < HAND_SIZE"
      and s': "s' = setGame s gameId
           (?g\<lparr> hand0 := (hand0 ?g)[unat (dealIndex ?g) := fst (drawUniqueCard (usedMask ?g) randA)],
               hand1 := (hand1 ?g)[unat (dealIndex ?g) :=
                   fst (drawUniqueCard (snd (drawUniqueCard (usedMask ?g) randA)) randB)],
               usedMask := snd (drawUniqueCard (snd (drawUniqueCard (usedMask ?g) randA)) randB),
               dealIndex := dealIndex ?g + 1 \<rparr>)"
      by simp_all
    have k6: "unat (dealIndex ?g) < 6" using lt by (simp add: HAND_SIZE_def word_less_nat_alt)
    have k1: "unat (dealIndex ?g + 1) = Suc (unat (dealIndex ?g))"
      using k6 by (simp add: unat_word_ariths)
    have len: "length (hand0 ?g) = 6" "length (hand1 ?g) = 6"
      using dl[of gameId] by (simp_all add: deal_inv_def)
    show ?thesis
      unfolding s' using k6 len
      by (simp add: setGame_def dealt0_def dealt1_def k1 take_Suc_update)
  qed
  have c: "unat (dealIndex (games s x)) \<le> unat HAND_SIZE"
    using dl[of x] by (simp add: deal_inv_def HAND_SIZE_def)
  have d: "distinct (dealt0 (games s x) @ dealt1 (games s x))"
    using dl[of x] by (simp add: deal_inv_def)
  have e: "\<forall>c \<in> set (dealt0 (games s x) @ dealt1 (games s x)). unat c < 52"
    using dl[of x] unfolding deal_inv_def by blast
  have f: "dealt0 (games s x) = hand0 (games s x) \<and> dealt1 (games s x) = hand1 (games s x) \<and>
            set (hand0 (games s x)) \<inter> set (hand1 (games s x)) = {}"
    if full: "dealIndex (games s x) = HAND_SIZE"
  proof -
    note eq = deal_inv_full[OF dl full]
    have "set (dealt0 (games s x)) \<inter> set (dealt1 (games s x)) = {}" using d by simp
    then show ?thesis using eq by simp
  qed
  show ?thesis using a b c d e f deal_inv_lengths[OF dl, of x] by blast
qed


lemma joined_start_ok: "\<not> isl (startGame (run init_contract joined_txs) 1 0)"
  by code_simp

lemma demo_rand_ok: "list_all rand_ok demo_txs" "list_all rand_ok started_txs"
  "list_all rand_ok joined_txs"
  by (simp_all add: demo_txs_def played_once_txs_def started_txs_def joined_txs_def)

theorem dealt_cards_unique_witness:
  "list_all rand_ok joined_txs \<and> list_all rand_ok started_txs \<and> list_all rand_ok demo_txs \<and>
   \<not> isl (startGame (run init_contract joined_txs) 1 0) \<and>
   usedMask (games (projr (startGame (run init_contract joined_txs) 1 0)) 0) = 0 \<and>
   \<not> isl (dealRound (run init_contract started_txs) 1 0 5 5) \<and>
   dealt0 (games (projr (dealRound (run init_contract started_txs) 1 0 5 5)) 0) = [5] \<and>
   dealt1 (games (projr (dealRound (run init_contract started_txs) 1 0 5 5)) 0) = [6] \<and>
   dealIndex (games (run init_contract demo_txs) 0) = HAND_SIZE \<and>
   dealt0 (games (run init_contract demo_txs) 0) = [5, 0, 51, 3, 7, 33] \<and>
   dealt1 (games (run init_contract demo_txs) 0) = [6, 1, 2, 4, 8, 12] \<and>
   distinct (dealt0 (games (run init_contract demo_txs) 0) @
             dealt1 (games (run init_contract demo_txs) 0)) \<and>
   set (hand0 (games (run init_contract demo_txs) 0)) \<inter>
   set (hand1 (games (run init_contract demo_txs) 0)) = {}"
proof -
  let ?j = "run init_contract joined_txs"
  let ?s = "run init_contract started_txs"
  let ?d = "run init_contract demo_txs"
  have j1: "\<not> isl (startGame ?j 1 0)" by (rule joined_start_ok)
  then have j2: "startGame ?j 1 0 = Inr (projr (startGame ?j 1 0))" by simp
  have s1: "\<not> isl (dealRound ?s 1 0 5 5)" by (rule started_deal_ok)
  then have s2: "dealRound ?s 1 0 5 5 = Inr (projr (dealRound ?s 1 0 5 5))" by simp
  have c0: "fst (drawUniqueCard 0 5) = 5" by code_simp
  have c1: "fst (drawUniqueCard (snd (drawUniqueCard 0 5)) 5) = 6" by code_simp
  have d1: "dealIndex (games ?d 0) = HAND_SIZE" by (simp add: demo_game HAND_SIZE_def)
  from dealt_cards_unique[OF demo_rand_ok(3), where sender = 1 and gameId = 0
      and s' = "projr (startGame ?j 1 0)"] j2
  have a: "usedMask (games (projr (startGame ?j 1 0)) 0) = 0" by blast
  from dealt_cards_unique[OF demo_rand_ok(2), where sender = 1 and gameId = 0
      and randA = 5 and randB = 5 and s' = "projr (dealRound ?s 1 0 5 5)"] s2
  have b: "dealt0 (games (projr (dealRound ?s 1 0 5 5)) 0) = [5] \<and>
           dealt1 (games (projr (dealRound ?s 1 0 5 5)) 0) = [6]"
    by (simp add: started_game dealt0_def dealt1_def c0 c1)
  from dealt_cards_unique[OF demo_rand_ok(1), where x = 0] d1
  have c: "distinct (dealt0 (games ?d 0) @ dealt1 (games ?d 0)) \<and>
           dealt0 (games ?d 0) = hand0 (games ?d 0) \<and> dealt1 (games ?d 0) = hand1 (games ?d 0) \<and>
           set (hand0 (games ?d 0)) \<inter> set (hand1 (games ?d 0)) = {}"
    by blast
  then have e: "dealt0 (games ?d 0) = [5, 0, 51, 3, 7, 33] \<and> dealt1 (games ?d 0) = [6, 1, 2, 4, 8, 12]"
    by (simp add: demo_game)
  show ?thesis using demo_rand_ok j1 a s1 b d1 c e by blast
qed


lemma init_game: "games (run init_contract []) gameId = empty_game"
  by (simp add: init_contract_def)

lemma created_game:
  "games (run init_contract created_txs) 0 = empty_game\<lparr> player0 := 1, createdAt := 100 \<rparr>"
  by code_simp

lemma joined_game:
  "games (run init_contract joined_txs) 0 =
     empty_game\<lparr> player0 := 1, player1 := 2, createdAt := 100 \<rparr>"
  by code_simp

lemma created_join_ok: "\<not> isl (joinGame (run init_contract created_txs) 2 0)"
  by code_simp

lemma joinGame_unknown:
  "player0 (games s gameId) = 0 \<Longrightarrow> joinGame s sender gameId = Inl (GameNotFound gameId)"
  by (simp add: joinGame_def getGame_def)

lemma joinGame_full:
  "player0 (games s gameId) \<noteq> 0 \<Longrightarrow> \<not> started (games s gameId) \<Longrightarrow>
     player1 (games s gameId) \<noteq> 0 \<Longrightarrow> joinGame s sender gameId = Inl (GameFull gameId)"
  by (simp add: joinGame_def getGame_def)

lemma joinGame_self:
  "player0 (games s gameId) \<noteq> 0 \<Longrightarrow> \<not> started (games s gameId) \<Longrightarrow>
     player1 (games s gameId) = 0 \<Longrightarrow> player0 (games s gameId) = sender \<Longrightarrow>
     joinGame s sender gameId = Inl (GameNotOpen gameId)"
  by (simp add: joinGame_def getGame_def)

lemma joinGame_open:
  "player0 (games s gameId) \<noteq> 0 \<Longrightarrow> \<not> started (games s gameId) \<Longrightarrow>
     player1 (games s gameId) = 0 \<Longrightarrow> player0 (games s gameId) \<noteq> sender \<Longrightarrow>
     joinGame s sender gameId =
       removeOpen (setGame s gameId ((games s gameId)\<lparr> player1 := sender \<rparr>)) gameId"
  by (simp add: joinGame_def getGame_def)

text \<open>
  Claim C5. In every state the contract can reach, \<open>joinGame\<close> tests its failure
  conditions in the order of the claim and reverts with the error of the first that
  holds: \<open>GameNotFound\<close> for an unknown id, \<open>GameAlreadyStarted\<close> for a started session,
  \<open>GameFull\<close> when slot 1 is occupied, \<open>GameNotOpen\<close> (the self-join error) when the caller
  is slot 0. In every other case it succeeds. On success slot 1 is the caller, nothing
  else of the session changes, and the id is no longer in the list of open games.
\<close>

theorem join_game_outcomes:
  fixes ts :: "tx list"
  defines "s \<equiv> run init_contract ts"
  shows "(player0 (games s gameId) = 0 \<longrightarrow>
            joinGame s sender gameId = Inl (GameNotFound gameId)) \<and>
         (started (games s gameId) \<longrightarrow>
            joinGame s sender gameId = Inl (GameAlreadyStarted gameId)) \<and>
         (\<not> started (games s gameId) \<and> player1 (games s gameId) \<noteq> 0 \<longrightarrow>
            joinGame s sender gameId = Inl (GameFull gameId)) \<and>
         (player0 (games s gameId) \<noteq> 0 \<and> \<not> started (games s gameId) \<and>
          player1 (games s gameId) = 0 \<and> player0 (games s gameId) = sender \<longrightarrow>
            joinGame s sender gameId = Inl (GameNotOpen gameId)) \<and>
         (player0 (games s gameId) \<noteq> 0 \<and> \<not> started (games s gameId) \<and>
          player1 (games s gameId) = 0 \<and> player0 (games s gameId) \<noteq> sender \<longrightarrow>
            (\<exists>s''. joinGame s sender gameId = Inr s'')) \<and>
         (joinGame s sender gameId = Inr s' \<longrightarrow>
            player1 (games s' gameId) = sender \<and>
            games s' = (games s)(gameId := (games s gameId)\<lparr> player1 := sender \<rparr>) \<and>
            gameId \<notin> set (getOpenGameIds s'))"
proof -
  have inv: "contract_inv s" unfolding s_def by (rule contract_inv_reachable)
  have a: "player0 (games s gameId) = 0 \<longrightarrow>
            joinGame s sender gameId = Inl (GameNotFound gameId)"
    by (simp add: joinGame_unknown)
  have b: "joinGame s sender gameId = Inl (GameAlreadyStarted gameId)"
    if st: "started (games s gameId)"
  proof -
    have "player0 (games s gameId) \<noteq> 0"
      using contract_inv_games(1)[OF inv, of gameId] st by (simp add: flag_inv_def)
    then show ?thesis using st by (rule joinGame_started)
  qed
  have c: "joinGame s sender gameId = Inl (GameFull gameId)"
    if pre: "\<not> started (games s gameId) \<and> player1 (games s gameId) \<noteq> 0"
  proof -
    have "player0 (games s gameId) \<noteq> 0"
      using contract_inv_games(1)[OF inv, of gameId] pre by (simp add: flag_inv_def)
    then show ?thesis using pre by (simp add: joinGame_full)
  qed
  have d: "player0 (games s gameId) \<noteq> 0 \<and> \<not> started (games s gameId) \<and>
          player1 (games s gameId) = 0 \<and> player0 (games s gameId) = sender \<longrightarrow>
            joinGame s sender gameId = Inl (GameNotOpen gameId)"
    using joinGame_self[of s gameId sender] by blast
  have e: "\<exists>s''. joinGame s sender gameId = Inr s''"
    if pre: "player0 (games s gameId) \<noteq> 0 \<and> \<not> started (games s gameId) \<and>
          player1 (games s gameId) = 0 \<and> player0 (games s gameId) \<noteq> sender"
  proof -
    let ?s1 = "setGame s gameId ((games s gameId)\<lparr> player1 := sender \<rparr>)"
    have "open_inv s" using inv by (simp add: contract_inv_def)
    then have "open_inv ?s1" by (simp add: open_inv_setGame)
    from removeOpen_open_inv[OF this, of gameId] obtain s'' where
      "removeOpen ?s1 gameId = Inr s''" by blast
    then show ?thesis using pre by (simp add: joinGame_open)
  qed
  have f: "player1 (games s' gameId) = sender \<and>
            games s' = (games s)(gameId := (games s gameId)\<lparr> player1 := sender \<rparr>) \<and>
            gameId \<notin> set (getOpenGameIds s')"
    if ok: "joinGame s sender gameId = Inr s'"
    using contract_inv_join[OF inv ok] by (simp add: getOpenGameIds_def)
  show ?thesis using a b c d e f by blast
qed

theorem join_game_outcomes_witness:
  "joinGame (run init_contract []) 2 0 = Inl (GameNotFound 0) \<and>
   joinGame (run init_contract demo_txs) 3 0 = Inl (GameAlreadyStarted 0) \<and>
   joinGame (run init_contract joined_txs) 3 0 = Inl (GameFull 0) \<and>
   joinGame (run init_contract created_txs) 1 0 = Inl (GameNotOpen 0) \<and>
   \<not> isl (joinGame (run init_contract created_txs) 2 0) \<and>
   player1 (games (projr (joinGame (run init_contract created_txs) 2 0)) 0) = 2 \<and>
   0 \<notin> set (getOpenGameIds (projr (joinGame (run init_contract created_txs) 2 0)))"
proof -
  let ?c = "run init_contract created_txs"
  have h1: "player0 (games (run init_contract []) 0) = 0"
    unfolding init_game by (simp add: empty_game_def)
  have h2: "started (games (run init_contract demo_txs) 0)" by (simp add: demo_game)
  have h3: "\<not> started (games (run init_contract joined_txs) 0) \<and>
            player1 (games (run init_contract joined_txs) 0) \<noteq> 0"
    by (simp add: joined_game empty_game_def)
  have h4: "player0 (games ?c 0) \<noteq> 0 \<and> \<not> started (games ?c 0) \<and>
            player1 (games ?c 0) = 0 \<and> player0 (games ?c 0) = 1"
    by (simp add: created_game empty_game_def)
  have h5: "\<not> isl (joinGame ?c 2 0)" by (rule created_join_ok)
  then have h6: "joinGame ?c 2 0 = Inr (projr (joinGame ?c 2 0))" by simp
  from join_game_outcomes[where ts = "[]" and gameId = 0 and sender = 2] h1
  have a: "joinGame (run init_contract []) 2 0 = Inl (GameNotFound 0)" by blast
  from join_game_outcomes[where ts = demo_txs and gameId = 0 and sender = 3] h2
  have b: "joinGame (run init_contract demo_txs) 3 0 = Inl (GameAlreadyStarted 0)" by blast
  from join_game_outcomes[where ts = joined_txs and gameId = 0 and sender = 3] h3
  have c: "joinGame (run init_contract joined_txs) 3 0 = Inl (GameFull 0)" by blast
  from join_game_outcomes[where ts = created_txs and gameId = 0 and sender = 1] h4
  have d: "joinGame ?c 1 0 = Inl (GameNotOpen 0)" by blast
  from join_game_outcomes[where ts = created_txs and gameId = 0 and sender = 2
      and s' = "projr (joinGame ?c 2 0)"] h6
  have e: "player1 (games (projr (joinGame ?c 2 0)) 0) = 2 \<and>
           0 \<notin> set (getOpenGameIds (projr (joinGame ?c 2 0)))" by blast
  show ?thesis using a b c d h5 e by blast
qed




lemma init_create_ok: "\<not> isl (createGame (run init_contract []) 1 100)"
  by code_simp

lemma init_create_id: "fst (projr (createGame (run init_contract []) 1 100)) = 0"
  by code_simp

lemma createGame_open:
  assumes "createGame s sender timestamp = Inr (gameId, s')"
  shows "gameId \<in> set (openGameIds s')"
proof -
  from createGame_Inr[OF assms] show ?thesis by (simp add: pushOpen_def setGame_def)
qed

text \<open>
  Claim C9. In every state the contract can reach: after \<open>createGame\<close> the new id is in
  the list of open games; after a successful \<open>joinGame\<close> the id is not in the list; and
  \<open>_removeOpen\<close> of an id that is not in the list, which is an id whose index entry is 0,
  returns without error and leaves the storage as it was.
\<close>

theorem open_index_integrity:
  fixes ts :: "tx list"
  defines "s \<equiv> run init_contract ts"
  shows "(createGame s sender timestamp = Inr (newId, s') \<longrightarrow>
            newId \<in> set (getOpenGameIds s')) \<and>
         (joinGame s sender gameId = Inr s' \<longrightarrow> gameId \<notin> set (getOpenGameIds s')) \<and>
         ((gameId \<notin> set (getOpenGameIds s)) = (openIndexPlusOne s gameId = 0)) \<and>
         (gameId \<notin> set (getOpenGameIds s) \<longrightarrow> removeOpen s gameId = Inr s)"
proof -
  have inv: "contract_inv s" unfolding s_def by (rule contract_inv_reachable)
  have ok: "idx_ok (openGameIds s) (openIndexPlusOne s)"
    using inv by (simp add: contract_inv_def open_inv_def)
  have a: "createGame s sender timestamp = Inr (newId, s') \<longrightarrow>
            newId \<in> set (getOpenGameIds s')"
    by (simp add: getOpenGameIds_def createGame_open)
  have b: "gameId \<notin> set (getOpenGameIds s')" if j: "joinGame s sender gameId = Inr s'"
    using contract_inv_join[OF inv j] by (simp add: getOpenGameIds_def)
  have c: "(gameId \<notin> set (getOpenGameIds s)) = (openIndexPlusOne s gameId = 0)"
    using idx_ok_mem[OF ok, of gameId] by (simp add: getOpenGameIds_def)
  have d: "removeOpen s gameId = Inr s" if "gameId \<notin> set (getOpenGameIds s)"
    using that c by (simp add: removeOpen_def)
  show ?thesis using a b c d by blast
qed

theorem open_index_integrity_witness:
  "\<not> isl (createGame (run init_contract []) 1 100) \<and>
   fst (projr (createGame (run init_contract []) 1 100)) = 0 \<and>
   0 \<in> set (getOpenGameIds (snd (projr (createGame (run init_contract []) 1 100)))) \<and>
   \<not> isl (joinGame (run init_contract created_txs) 2 0) \<and>
   0 \<notin> set (getOpenGameIds (projr (joinGame (run init_contract created_txs) 2 0))) \<and>
   7 \<notin> set (getOpenGameIds (run init_contract created_txs)) \<and>
   removeOpen (run init_contract created_txs) 7 = Inr (run init_contract created_txs)"
proof -
  let ?i = "run init_contract []"
  let ?c = "run init_contract created_txs"
  have h1: "\<not> isl (createGame ?i 1 100)" by (rule init_create_ok)
  then have "createGame ?i 1 100 = Inr (projr (createGame ?i 1 100))" by simp
  then have h2: "createGame ?i 1 100 = Inr (0, snd (projr (createGame ?i 1 100)))"
    using init_create_id by (metis prod.collapse)
  have h3: "\<not> isl (joinGame ?c 2 0)" by (rule created_join_ok)
  then have h4: "joinGame ?c 2 0 = Inr (projr (joinGame ?c 2 0))" by simp
  have h5: "7 \<notin> set (getOpenGameIds ?c)" by code_simp
  from open_index_integrity[where ts = "[]" and sender = 1 and timestamp = 100 and newId = 0
      and s' = "snd (projr (createGame ?i 1 100))"] h2
  have a: "0 \<in> set (getOpenGameIds (snd (projr (createGame ?i 1 100))))" by blast
  from open_index_integrity[where ts = created_txs and sender = 2 and gameId = 0
      and s' = "projr (joinGame ?c 2 0)"] h4
  have b: "0 \<notin> set (getOpenGameIds (projr (joinGame ?c 2 0)))" by blast
  from open_index_integrity[where ts = created_txs and gameId = 7] h5
  have c: "removeOpen ?c 7 = Inr ?c" by blast
  show ?thesis using h1 init_create_id a h3 b h5 c by blast
qed

end
